theory Spec2Isabelle
  imports Main
begin

section \<open>DiscoveryProviderSelector: data model\<close>

text \<open>
  The selector of \<^verbatim>\<open>libs/services/discoveryProvider/DiscoveryProviderSelector.ts\<close>.
  Exceptions are values: a method that can throw returns \<open>js_error + 'a\<close>, with
  \<open>Inl\<close> the exception. \<open>TypeError\<close> is the runtime's own error (reading a
  property of \<^verbatim>\<open>undefined\<close>, an invalid version handed to the semver package);
  \<open>Thrown\<close> is an exception raised by an external collaborator (registry, callback).
\<close>

datatype js_error = TypeError | Thrown string

text \<open>
  A parsed semantic version, as the semver package's \<^verbatim>\<open>SemVer\<close> object holds it: major,
  minor, patch and the prerelease identifiers, each a number or a string. The package is
  an external library; what the selector uses of it is \<^verbatim>\<open>valid\<close>, \<^verbatim>\<open>patch\<close> and
  \<^verbatim>\<open>rcompare\<close>, all of which go through the package's parser. The parser is a
  parameter of the model (\<open>semver_parse\<close> below): the version strings stay strings,
  as in the code. An identifier made of digits only is a \<open>NumericId\<close>, as the package
  turns it into a number. Build metadata plays no part in any of the three and is left out.
\<close>

datatype prerelease_id = NumericId nat | AlphanumId string

datatype semver = SemVer (major: nat) (minor: nat) (patch: nat) (prerelease: "prerelease_id list")

text \<open>The health-check payload \<^verbatim>\<open>response.data.data\<close>.\<close>

datatype tx_info = TxInfo (slot_diff: "int option")

datatype plays_info = Plays (tx_info: "tx_info option")

record health_data =
  block_difference :: int
  service :: string
  version :: string
  plays :: "plays_info option"
  telemetry :: "(string \<times> string) list"

text \<open>
  \<^verbatim>\<open>response.config.url\<close> is the string the probe was sent to, the key into
  \<^verbatim>\<open>urlMap\<close>. \<^verbatim>\<open>new URL(...)\<close> of it is a \<open>request_url\<close>, with origin, path and
  query, or throws when the string is not a URL.
\<close>

record request_url =
  origin :: string
  pathname :: string
  search :: string

record response =
  status :: int
  config_url :: string
  data :: health_data

text \<open>The argument object handed to \<^verbatim>\<open>monitoringCallbacks.healthCheck\<close>.\<close>

record health_metrics =
  m_endpoint :: string
  m_pathname :: string
  m_queryString :: string
  m_version :: string
  m_blockDifference :: int
  m_slotDifferencePlays :: "int option"
  m_telemetry :: "(string \<times> string) list"

text \<open>An entry of the base selector's decision trace: a stage name and a value.\<close>

record DecisionTreeStage =
  stage :: string
  val :: string

text \<open>
  Everything the selector is constructed with or imports and never changes: the three
  constants of \<^verbatim>\<open>./constants\<close>, the configured callbacks (absent = \<open>None\<close>; a callback
  returns \<open>Some e\<close> when it throws \<open>e\<close>), the slot-diff threshold (\<^verbatim>\<open>null\<close> or
  \<^verbatim>\<open>undefined\<close> = \<open>None\<close>), the on-chain version registry, the semver parser and the
  platform's \<^verbatim>\<open>URL\<close> constructor (\<open>None\<close> where it throws).
\<close>

record env =
  DISCOVERY_SERVICE_NAME :: string
  UNHEALTHY_BLOCK_DIFF :: int
  REGRESSED_MODE_TIMEOUT :: nat
  selectionCallback :: "(string option \<Rightarrow> DecisionTreeStage list \<Rightarrow> js_error option) option"
  healthCheck :: "(health_metrics \<Rightarrow> js_error option) option"
  unhealthySlotDiffPlays :: "int option"
  getNumberOfVersions :: "js_error + int"
  getVersion :: "int \<Rightarrow> js_error + string"
  semver_parse :: "string \<Rightarrow> semver option"
  url_parse :: "string \<Rightarrow> request_url option"

definition PREVIOUS_VERSIONS_TO_CHECK :: int where
  "PREVIOUS_VERSIONS_TO_CHECK = 5"

datatype registry_query = QueryNumberOfVersions | QueryVersion int

text \<open>
  The mutable fields of the selector, together with the two pieces of the runtime the
  claims talk about: the pending \<^verbatim>\<open>setTimeout\<close> timers (their due times, in creation
  order) with the clock they are measured against, and the log of the queries sent to the
  version registry. \<open>backups\<close> is the JavaScript object \<^verbatim>\<open>this.backups\<close>, as the list
  of its entries in key order (insertion order, the keys being endpoint URLs).
\<close>

record selector =
  currentVersion :: string
  regressedMode :: bool
  validVersions :: "string list option"
  backups :: "(string \<times> health_data) list"
  decisionTree :: "DecisionTreeStage list"
  clock :: nat
  timers :: "nat list"
  registryQueries :: "registry_query list"

section \<open>Array.prototype.sort\<close>

text \<open>
  \<^verbatim>\<open>xs.sort(cmp)\<close> is a stable sort: \<open>x\<close> goes before \<open>y\<close> when \<open>cmp x y < 0\<close>,
  and elements that compare equal keep their order.
\<close>

fun js_insort :: "('a \<Rightarrow> 'a \<Rightarrow> int) \<Rightarrow> 'a \<Rightarrow> 'a list \<Rightarrow> 'a list" where
  "js_insort cmp x [] = [x]"
| "js_insort cmp x (y # ys) = (if cmp x y \<le> 0 then x # y # ys else y # js_insort cmp x ys)"

fun js_sort :: "('a \<Rightarrow> 'a \<Rightarrow> int) \<Rightarrow> 'a list \<Rightarrow> 'a list" where
  "js_sort cmp [] = []"
| "js_sort cmp (x # xs) = js_insort cmp x (js_sort cmp xs)"

text \<open>
  Without a comparison function, \<^verbatim>\<open>sort()\<close> compares the elements' string
  conversions by code unit. \<open>number_toString\<close> is the decimal notation JavaScript prints
  for an integer (of magnitude below \<open>10^21\<close>).
\<close>

definition digit_char :: "nat \<Rightarrow> char" where
  "digit_char d = char_of (48 + d)"

fun nat_toString :: "nat \<Rightarrow> string" where
  "nat_toString n = (if n < 10 then [digit_char n] else nat_toString (n div 10) @ [digit_char (n mod 10)])"

declare nat_toString.simps [simp del]

definition number_toString :: "int \<Rightarrow> string" where
  "number_toString i = (if i < 0 then CHR ''-'' # nat_toString (nat (- i)) else nat_toString (nat i))"

fun string_lt :: "string \<Rightarrow> string \<Rightarrow> bool" where
  "string_lt [] [] = False"
| "string_lt [] (y # ys) = True"
| "string_lt (x # xs) [] = False"
| "string_lt (x # xs) (y # ys) =
     (if (of_char x :: nat) < of_char y then True
      else if (of_char y :: nat) < of_char x then False
      else string_lt xs ys)"

definition default_compare :: "int \<Rightarrow> int \<Rightarrow> int" where
  "default_compare a b =
     (if string_lt (number_toString a) (number_toString b) then - 1
      else if string_lt (number_toString b) (number_toString a) then 1
      else 0)"

section \<open>The semver package and the registry's version predicate\<close>

definition semver_valid :: "env \<Rightarrow> string \<Rightarrow> bool" where
  "semver_valid E v = (semver_parse E v \<noteq> None)"

text \<open>\<^verbatim>\<open>semver.patch(v)\<close> throws on a string that does not parse.\<close>

definition semver_patch :: "env \<Rightarrow> string \<Rightarrow> js_error + nat" where
  "semver_patch E v = (case semver_parse E v of None \<Rightarrow> Inl TypeError | Some p \<Rightarrow> Inr (patch p))"

text \<open>
  The package's precedence. \<^verbatim>\<open>compareIdentifiers\<close>: two numbers by value, a number
  before a string, two strings by code unit. \<^verbatim>\<open>compareMain\<close>: major, then minor, then
  patch. \<^verbatim>\<open>comparePre\<close>: a version with prerelease identifiers comes before the same
  version without; otherwise the first identifiers that differ decide, and a list that
  ends first comes first. \<^verbatim>\<open>compare\<close> is \<^verbatim>\<open>compareMain(other) || comparePre(other)\<close>.
\<close>

definition compareIdentifiers :: "prerelease_id \<Rightarrow> prerelease_id \<Rightarrow> int" where
  "compareIdentifiers a b =
     (if a = b then 0
      else case (a, b) of
             (NumericId m, NumericId n) \<Rightarrow> if m < n then - 1 else 1
           | (NumericId m, AlphanumId t) \<Rightarrow> - 1
           | (AlphanumId s, NumericId n) \<Rightarrow> 1
           | (AlphanumId s, AlphanumId t) \<Rightarrow> if string_lt s t then - 1 else 1)"

definition compareMain :: "semver \<Rightarrow> semver \<Rightarrow> int" where
  "compareMain x y =
     (if compareIdentifiers (NumericId (major x)) (NumericId (major y)) \<noteq> 0
        then compareIdentifiers (NumericId (major x)) (NumericId (major y))
      else if compareIdentifiers (NumericId (minor x)) (NumericId (minor y)) \<noteq> 0
        then compareIdentifiers (NumericId (minor x)) (NumericId (minor y))
      else compareIdentifiers (NumericId (patch x)) (NumericId (patch y)))"

fun comparePreLoop :: "prerelease_id list \<Rightarrow> prerelease_id list \<Rightarrow> int" where
  "comparePreLoop [] [] = 0"
| "comparePreLoop (a # as) [] = 1"
| "comparePreLoop [] (b # bs) = - 1"
| "comparePreLoop (a # as) (b # bs) =
     (if a = b then comparePreLoop as bs else compareIdentifiers a b)"

definition comparePre :: "semver \<Rightarrow> semver \<Rightarrow> int" where
  "comparePre x y =
     (if prerelease x \<noteq> [] \<and> prerelease y = [] then - 1
      else if prerelease x = [] \<and> prerelease y \<noteq> [] then 1
      else if prerelease x = [] \<and> prerelease y = [] then 0
      else comparePreLoop (prerelease x) (prerelease y))"

definition compareSemVer :: "semver \<Rightarrow> semver \<Rightarrow> int" where
  "compareSemVer x y = (if compareMain x y \<noteq> 0 then compareMain x y else comparePre x y)"

text \<open>
  \<^verbatim>\<open>semver.compare(a, b)\<close> on strings. On a string that does not parse the package
  throws; the selector only sorts versions that passed the valid-version filter, which
  parse (\<open>isVersionOk_parses\<close> below), so that branch is never taken and is given 0.
\<close>

definition semver_compare :: "env \<Rightarrow> string \<Rightarrow> string \<Rightarrow> int" where
  "semver_compare E a b =
     (case (semver_parse E a, semver_parse E b) of
        (Some x, Some y) \<Rightarrow> compareSemVer x y
      | _ \<Rightarrow> 0)"

definition semver_rcompare :: "env \<Rightarrow> string \<Rightarrow> string \<Rightarrow> int" where
  "semver_rcompare E a b = semver_compare E b a"

text \<open>
  Modelled from the spec: \<^verbatim>\<open>ethContracts.hasSameMajorAndMinorVersion\<close> is not in the
  sources at hand. The spec gives it as the registry's ``comparison predicate for
  major/minor compatibility'', \<^verbatim>\<open>hasSameMajorAndMinorVersion(a, b) \<rightarrow> bool\<close>, and
  ``same generation'' as equal major and minor.
\<close>

definition hasSameMajorAndMinorVersion :: "env \<Rightarrow> string \<Rightarrow> string \<Rightarrow> bool" where
  "hasSameMajorAndMinorVersion E a b =
     (case (semver_parse E a, semver_parse E b) of
        (Some x, Some y) \<Rightarrow> major x = major y \<and> minor x = minor y
      | _ \<Rightarrow> False)"

section \<open>Regressed mode\<close>

text \<open>
  \<^verbatim>\<open>enterRegressedMode\<close> sets the flag and calls \<^verbatim>\<open>setTimeout\<close>: one more timer is
  pending, due \<open>REGRESSED_MODE_TIMEOUT\<close> after the present moment. The handle
  \<^verbatim>\<open>setTimeout\<close> returns is dropped, and nothing in the class calls \<^verbatim>\<open>clearTimeout\<close>.
\<close>

definition enterRegressedMode :: "env \<Rightarrow> selector \<Rightarrow> selector" where
  "enterRegressedMode E s =
     s\<lparr>regressedMode := True, timers := timers s @ [clock s + REGRESSED_MODE_TIMEOUT E]\<rparr>"

definition isInRegressedMode :: "selector \<Rightarrow> bool" where
  "isInRegressedMode s = regressedMode s"

text \<open>
  The event loop up to time \<open>t\<close>: every pending timer that is due by then runs its
  callback, which sets \<^verbatim>\<open>regressedMode\<close> to false, and is no longer pending.
\<close>

definition runTimers :: "nat \<Rightarrow> selector \<Rightarrow> selector" where
  "runTimers t s =
     s\<lparr>clock := max t (clock s),
       regressedMode := (if \<exists>d \<in> set (timers s). d \<le> t then False else regressedMode s),
       timers := filter (\<lambda>d. \<not> d \<le> t) (timers s)\<rparr>"

section \<open>Health classification\<close>

text \<open>
  Modelled from the spec: \<^verbatim>\<open>ServiceSelector.addBackup\<close> belongs to the base class, which
  is not in the sources at hand. The spec gives the backups as a mapping from the canonical
  endpoint to the rejected candidate's payload. Assigning to a key of a JavaScript object
  replaces the value of a key that is there, in its place, and appends a new key.
\<close>

fun addBackup :: "string \<Rightarrow> health_data \<Rightarrow> (string \<times> health_data) list \<Rightarrow> (string \<times> health_data) list" where
  "addBackup k d [] = [(k, d)]"
| "addBackup k d (p # ps) = (if fst p = k then (k, d) # ps else p # addBackup k d ps)"

text \<open>\<^verbatim>\<open>urlMap[response.config.url]\<close> used as a property key: a missing entry is the key \<^verbatim>\<open>"undefined"\<close>.\<close>

definition canonical :: "(string \<rightharpoonup> string) \<Rightarrow> response \<Rightarrow> string" where
  "canonical urlMap r = (case urlMap (config_url r) of None \<Rightarrow> ''undefined'' | Some e \<Rightarrow> e)"

definition slotDiffPlays :: "health_data \<Rightarrow> int option" where
  "slotDiffPlays d =
     (case plays d of None \<Rightarrow> None
      | Some p \<Rightarrow> (case tx_info p of None \<Rightarrow> None | Some t \<Rightarrow> slot_diff t))"

definition metrics_of :: "request_url \<Rightarrow> response \<Rightarrow> health_metrics" where
  "metrics_of url r =
     \<lparr>m_endpoint = origin url, m_pathname = pathname url,
      m_queryString = search url, m_version = version (data r),
      m_blockDifference = block_difference (data r),
      m_slotDifferencePlays = slotDiffPlays (data r), m_telemetry = telemetry (data r)\<rparr>"

text \<open>
  \<^verbatim>\<open>try { body } catch (e) { handler }\<close>, for a body and a handler that either finish
  (\<open>None\<close>) or throw (\<open>Some e\<close>).
\<close>

definition try_catch :: "js_error option \<Rightarrow> (js_error \<Rightarrow> js_error option) \<Rightarrow> js_error option" where
  "try_catch body handler = (case body of None \<Rightarrow> None | Some e \<Rightarrow> handler e)"

text \<open>
  The monitoring block of \<^verbatim>\<open>isHealthy\<close>, entered when a callback is configured:
  \<^verbatim>\<open>new URL(response.config.url)\<close> stands before the \<^verbatim>\<open>try\<close>, so its
  \<^verbatim>\<open>TypeError\<close> leaves the method; the callback is called inside the \<^verbatim>\<open>try\<close>, whose
  handler logs the exception with \<^verbatim>\<open>console.error\<close> and finishes.
\<close>

definition monitorHealthCheck :: "env \<Rightarrow> response \<Rightarrow> js_error option" where
  "monitorHealthCheck E r =
     (case healthCheck E of None \<Rightarrow> None
      | Some cb \<Rightarrow>
          (case url_parse E (config_url r) of
             None \<Rightarrow> Some TypeError
           | Some url \<Rightarrow> try_catch (cb (metrics_of url r)) (\<lambda>e. None)))"

definition isHealthy :: "env \<Rightarrow> selector \<Rightarrow> response \<Rightarrow> (string \<rightharpoonup> string) \<Rightarrow> (js_error + bool) \<times> selector" where
  "isHealthy E s r urlMap =
     (case monitorHealthCheck E r of Some e \<Rightarrow> (Inl e, s)
      | None \<Rightarrow>
        if status r \<noteq> 200 then (Inr False, s)
        else if service (data r) \<noteq> DISCOVERY_SERVICE_NAME E then (Inr False, s)
        else if \<not> semver_valid E (version (data r)) then (Inr False, s)
        else if \<not> hasSameMajorAndMinorVersion E (currentVersion s) (version (data r)) then (Inr False, s)
        else (case semver_patch E (version (data r)) of Inl e \<Rightarrow> (Inl e, s)
          | Inr p \<Rightarrow> (case semver_patch E (currentVersion s) of Inl e \<Rightarrow> (Inl e, s)
          | Inr c \<Rightarrow>
            if p < c then (Inr False, s\<lparr>backups := addBackup (canonical urlMap r) (data r) (backups s)\<rparr>)
            else if block_difference (data r) > UNHEALTHY_BLOCK_DIFF E
              then (Inr False, s\<lparr>backups := addBackup (canonical urlMap r) (data r) (backups s)\<rparr>)
            else if (case slotDiffPlays (data r) of None \<Rightarrow> False
                     | Some sd \<Rightarrow>
                         (case unhealthySlotDiffPlays E of None \<Rightarrow> False | Some u \<Rightarrow> sd > u))
              then (Inr False, s\<lparr>backups := addBackup (canonical urlMap r) (data r) (backups s)\<rparr>)
            else (Inr True, s))))"

section \<open>select\<close>

text \<open>
  \<^verbatim>\<open>super.select()\<close> is the base class's method, a parameter here: it may throw, or
  return an endpoint or \<^verbatim>\<open>null\<close>, and it changes the selector. The selection callback is
  called with no \<^verbatim>\<open>try\<close> around it.
\<close>

definition select :: "env \<Rightarrow> (selector \<Rightarrow> (js_error + string option) \<times> selector) \<Rightarrow> selector \<Rightarrow> (js_error + string option) \<times> selector" where
  "select E super_select s =
     (case super_select s of
        (Inl e, s1) \<Rightarrow> (Inl e, s1)
      | (Inr endpoint, s1) \<Rightarrow>
          (case selectionCallback E of None \<Rightarrow> (Inr endpoint, s1)
           | Some cb \<Rightarrow>
               (case cb endpoint (decisionTree s1) of Some e \<Rightarrow> (Inl e, s1)
                | None \<Rightarrow> (Inr endpoint, s1))))"

section \<open>selectFromBackups\<close>

subsection \<open>The valid versions, built on first use\<close>

text \<open>
  The \<^verbatim>\<open>for\<close> loop over \<open>i\<close>: one registry query per round, the answer pushed onto
  \<^verbatim>\<open>this.validVersions\<close>. A query that fails ends the method with its exception.
\<close>

function fetchPastVersions :: "env \<Rightarrow> int \<Rightarrow> int \<Rightarrow> selector \<Rightarrow> (js_error + unit) \<times> selector" where
  "fetchPastVersions E numberOfVersions i s =
     (if i < min PREVIOUS_VERSIONS_TO_CHECK (numberOfVersions - 1) then
        (let s1 = s\<lparr>registryQueries := registryQueries s @ [QueryVersion (numberOfVersions - 2 - i)]\<rparr>
         in case getVersion E (numberOfVersions - 2 - i) of
              Inl e \<Rightarrow> (Inl e, s1)
            | Inr pastServiceVersion \<Rightarrow>
                (case validVersions s1 of
                   None \<Rightarrow> (Inl TypeError, s1)
                 | Some vv \<Rightarrow>
                     fetchPastVersions E numberOfVersions (i + 1)
                       (s1\<lparr>validVersions := Some (vv @ [pastServiceVersion])\<rparr>)))
      else (Inr (), s))"
  by pat_completeness auto
termination
  by (relation "measure (\<lambda>(E, n, i, s). nat (min PREVIOUS_VERSIONS_TO_CHECK (n - 1) - i))") auto

declare fetchPastVersions.simps [simp del]

text \<open>
  \<^verbatim>\<open>if (!this.validVersions) { ... }\<close>: the field is assigned before the first registry
  query is awaited, so it is set even when a query fails.
\<close>

definition ensureValidVersions :: "env \<Rightarrow> selector \<Rightarrow> (js_error + unit) \<times> selector" where
  "ensureValidVersions E s =
     (case validVersions s of
        Some vv \<Rightarrow> (Inr (), s)
      | None \<Rightarrow>
          (let s1 = s\<lparr>validVersions := Some [currentVersion s],
                       registryQueries := registryQueries s @ [QueryNumberOfVersions]\<rparr>
           in case getNumberOfVersions E of
                Inl e \<Rightarrow> (Inl e, s1)
              | Inr numberOfVersions \<Rightarrow> fetchPastVersions E numberOfVersions 0 s1))"

subsection \<open>The two keyed maps\<close>

fun isVersionOk :: "env \<Rightarrow> string list \<Rightarrow> string \<Rightarrow> bool" where
  "isVersionOk E [] v = False"
| "isVersionOk E (valid # rest) v =
     (if hasSameMajorAndMinorVersion E valid v then True else isVersionOk E rest v)"

text \<open>
  The four locals of the method. The keys of \<^verbatim>\<open>blockDiffMap\<close> are the block differences
  themselves: an integer and its property-key string determine each other.
\<close>

record backup_index =
  versions :: "string list"
  blockDiffs :: "int list"
  versionMap :: "string \<rightharpoonup> string list"
  blockDiffMap :: "int \<rightharpoonup> string list"

definition empty_index :: backup_index where
  "empty_index = \<lparr>versions = [], blockDiffs = [], versionMap = Map.empty, blockDiffMap = Map.empty\<rparr>"

definition push_to :: "('k \<rightharpoonup> string list) \<Rightarrow> 'k \<Rightarrow> string \<Rightarrow> ('k \<rightharpoonup> string list)" where
  "push_to m k backup = m(k \<mapsto> (case m k of None \<Rightarrow> [backup] | Some l \<Rightarrow> l @ [backup]))"

text \<open>
  The body of the \<^verbatim>\<open>forEach\<close>, for one key of \<^verbatim>\<open>this.backups\<close>. The key comes from
  \<^verbatim>\<open>Object.keys(this.backups)\<close>, so the lookup finds it.
\<close>

definition collectBackup :: "env \<Rightarrow> string list \<Rightarrow> (string \<times> health_data) list \<Rightarrow> backup_index \<Rightarrow> string \<Rightarrow> backup_index" where
  "collectBackup E vv bs acc backup =
     (case map_of bs backup of
        None \<Rightarrow> acc
      | Some b \<Rightarrow>
          if \<not> isVersionOk E vv (version b) then acc
          else acc\<lparr>versions := versions acc @ [version b],
                   blockDiffs := blockDiffs acc @ [block_difference b],
                   versionMap := push_to (versionMap acc) (version b) backup,
                   blockDiffMap := push_to (blockDiffMap acc) (block_difference b) backup\<rparr>)"

fun collectBackups :: "env \<Rightarrow> string list \<Rightarrow> (string \<times> health_data) list \<Rightarrow> string list \<Rightarrow> backup_index \<Rightarrow> backup_index" where
  "collectBackups E vv bs [] acc = acc"
| "collectBackups E vv bs (k # ks) acc = collectBackups E vv bs ks (collectBackup E vv bs acc k)"

subsection \<open>Newest version first, then the best block difference\<close>

text \<open>The inner loop: the first endpoint of the list whose block difference is under the threshold.\<close>

fun firstUnderThreshold :: "env \<Rightarrow> (string \<times> health_data) list \<Rightarrow> string list \<Rightarrow> js_error + string option" where
  "firstUnderThreshold E bs [] = Inr None"
| "firstUnderThreshold E bs (e # es) =
     (case map_of bs e of
        None \<Rightarrow> Inl TypeError
      | Some b \<Rightarrow>
          if block_difference b < UNHEALTHY_BLOCK_DIFF E then Inr (Some e)
          else firstUnderThreshold E bs es)"

text \<open>\<^verbatim>\<open>if (selected)\<close>: \<^verbatim>\<open>null\<close> and the empty string are falsy.\<close>

definition truthy :: "string option \<Rightarrow> bool" where
  "truthy x = (case x of None \<Rightarrow> False | Some e \<Rightarrow> e \<noteq> [])"

text \<open>
  The loop over \<^verbatim>\<open>sortedVersions\<close>, with the variable \<^verbatim>\<open>selected\<close> carried along.
  \<open>Inr (Some e)\<close>: the loop returned \<open>e\<close>; \<open>Inr None\<close>: it ran to its end.
\<close>

fun walkVersions :: "env \<Rightarrow> (string \<times> health_data) list \<Rightarrow> (string \<rightharpoonup> string list) \<Rightarrow> string list \<Rightarrow> string option \<Rightarrow> js_error + string option" where
  "walkVersions E bs vm [] selected = Inr None"
| "walkVersions E bs vm (v # vs) selected =
     (case vm v of
        None \<Rightarrow> Inl TypeError
      | Some endpoints \<Rightarrow>
          (case firstUnderThreshold E bs endpoints of
             Inl e \<Rightarrow> Inl e
           | Inr found \<Rightarrow>
               (let selected' = (case found of None \<Rightarrow> selected | Some e \<Rightarrow> Some e)
                in if truthy selected' then Inr selected'
                   else walkVersions E bs vm vs selected')))"

text \<open>
  The method. After the version walk comes \<^verbatim>\<open>blockDiffs.sort()[0]\<close>, the look-up of
  that value in \<^verbatim>\<open>blockDiffMap\<close> and the first endpoint recorded under it; with no block
  difference recorded, \<^verbatim>\<open>blockDiffMap[undefined]\<close> is \<^verbatim>\<open>undefined\<close> and reading its
  element 0 throws. \<^verbatim>\<open>enterRegressedMode\<close> is called on this last path only.
\<close>

definition selectFromBackups :: "env \<Rightarrow> selector \<Rightarrow> (js_error + string option) \<times> selector" where
  "selectFromBackups E s =
     (case ensureValidVersions E s of
        (Inl e, s1) \<Rightarrow> (Inl e, s1)
      | (Inr u, s1) \<Rightarrow>
          (case validVersions s1 of
             None \<Rightarrow> (Inl TypeError, s1)
           | Some vv \<Rightarrow>
               (let idx = collectBackups E vv (backups s1) (map fst (backups s1)) empty_index;
                    sortedVersions = js_sort (semver_rcompare E) (versions idx)
                in case walkVersions E (backups s1) (versionMap idx) sortedVersions None of
                     Inl e \<Rightarrow> (Inl e, s1)
                   | Inr (Some selected) \<Rightarrow> (Inr (Some selected), s1)
                   | Inr None \<Rightarrow>
                       (case js_sort default_compare (blockDiffs idx) of
                          [] \<Rightarrow> (Inl TypeError, s1)
                        | bestBlockDiff # rest \<Rightarrow>
                            (case blockDiffMap idx bestBlockDiff of
                               None \<Rightarrow> (Inl TypeError, s1)
                             | Some [] \<Rightarrow> (Inr None, enterRegressedMode E s1)
                             | Some (selected # others) \<Rightarrow>
                                 (Inr (Some selected), enterRegressedMode E s1))))))"

section \<open>Notions the statements are written in\<close>

text \<open>
  What the text of the method and its comments speak of, as functions of the backups
  \<open>bs\<close> and the valid versions \<open>vv\<close>: whether the backup under a key passes the
  valid-version filter, its version and block difference, and whether its block difference
  is under the unhealthy threshold.
\<close>

definition okKey :: "env \<Rightarrow> string list \<Rightarrow> (string \<times> health_data) list \<Rightarrow> string \<Rightarrow> bool" where
  "okKey E vv bs k = (case map_of bs k of None \<Rightarrow> False | Some b \<Rightarrow> isVersionOk E vv (version b))"

definition versionOf :: "(string \<times> health_data) list \<Rightarrow> string \<Rightarrow> string" where
  "versionOf bs k = (case map_of bs k of None \<Rightarrow> [] | Some b \<Rightarrow> version b)"

definition blockDiffOf :: "(string \<times> health_data) list \<Rightarrow> string \<Rightarrow> int" where
  "blockDiffOf bs k = (case map_of bs k of None \<Rightarrow> 0 | Some b \<Rightarrow> block_difference b)"

definition underThreshold :: "env \<Rightarrow> (string \<times> health_data) list \<Rightarrow> string \<Rightarrow> bool" where
  "underThreshold E bs k =
     (case map_of bs k of None \<Rightarrow> False | Some b \<Rightarrow> block_difference b < UNHEALTHY_BLOCK_DIFF E)"

text \<open>The keys that pass \<open>P\<close> and carry the value \<open>v\<close> under \<open>f\<close>, in key order.\<close>

definition grouped :: "('a \<Rightarrow> bool) \<Rightarrow> ('a \<Rightarrow> 'k) \<Rightarrow> 'a list \<Rightarrow> 'k \<Rightarrow> 'a list" where
  "grouped P f ks v = filter (\<lambda>k. P k \<and> f k = v) ks"

text \<open>The filtered backups: the keys whose backup passes the valid-version filter.\<close>

definition filteredKeys :: "env \<Rightarrow> string list \<Rightarrow> (string \<times> health_data) list \<Rightarrow> string list" where
  "filteredKeys E vv bs = filter (okKey E vv bs) (map fst bs)"

definition versionGroup :: "env \<Rightarrow> string list \<Rightarrow> (string \<times> health_data) list \<Rightarrow> string \<Rightarrow> string list" where
  "versionGroup E vv bs v = grouped (okKey E vv bs) (versionOf bs) (map fst bs) v"

text \<open>
  The two steps of the method in closed form. \<open>firstChoice\<close>: the first version, newest
  first, whose group holds an endpoint under the threshold gives that endpoint.
  \<open>lastResort\<close>: the first endpoint recorded under the block difference that
  \<^verbatim>\<open>sort()\<close> puts first. \<open>selectFromBackups_closed\<close> below proves that the method
  computes exactly these.
\<close>

definition firstChoice :: "env \<Rightarrow> string list \<Rightarrow> (string \<times> health_data) list \<Rightarrow> string option" where
  "firstChoice E vv bs =
     (case find (\<lambda>v. truthy (find (underThreshold E bs) (versionGroup E vv bs v)))
             (js_sort (semver_rcompare E) (map (versionOf bs) (filteredKeys E vv bs))) of
        None \<Rightarrow> None
      | Some v \<Rightarrow> find (underThreshold E bs) (versionGroup E vv bs v))"

definition lastResort :: "env \<Rightarrow> string list \<Rightarrow> (string \<times> health_data) list \<Rightarrow> string option" where
  "lastResort E vv bs =
     (case js_sort default_compare (map (blockDiffOf bs) (filteredKeys E vv bs)) of
        [] \<Rightarrow> None
      | d # rest \<Rightarrow>
          (case grouped (okKey E vv bs) (blockDiffOf bs) (map fst bs) d of
             [] \<Rightarrow> None
           | e # others \<Rightarrow> Some e))"

text \<open>Version \<open>a\<close> is at least as new as version \<open>b\<close>.\<close>

definition semver_ge :: "env \<Rightarrow> string \<Rightarrow> string \<Rightarrow> bool" where
  "semver_ge E a b = (0 \<le> semver_compare E a b)"

text \<open>
  The secondary slot-diff check trips: the response reports a slot difference for the plays
  stream, a threshold for it is configured, and the difference exceeds the threshold.
\<close>

definition slotDiffTrips :: "env \<Rightarrow> health_data \<Rightarrow> bool" where
  "slotDiffTrips E d =
     (case plays d of
        Some (Plays (Some (TxInfo (Some sd)))) \<Rightarrow>
          (case unhealthySlotDiffPlays E of Some u \<Rightarrow> u < sd | None \<Rightarrow> False)
      | _ \<Rightarrow> False)"

text \<open>The patch number of \<open>v\<close> is lower than the patch number of the expected version.\<close>

definition patchLower :: "env \<Rightarrow> string \<Rightarrow> string \<Rightarrow> bool" where
  "patchLower E v expected =
     (case (semver_parse E v, semver_parse E expected) of
        (Some x, Some y) \<Rightarrow> patch x < patch y
      | _ \<Rightarrow> False)"

section \<open>Concrete selectors\<close>

text \<open>
  A registry with three versions, 1.0.0, 1.1.9 and 1.2.3 (the current one), a threshold of
  15 blocks and a regressed-mode timeout of 120 time units; the inputs at which the
  statements below are evaluated.
\<close>

definition demo_parse :: "string \<Rightarrow> semver option" where
  "demo_parse = map_of
     [(''1.2.3'', SemVer 1 2 3 []), (''1.2.2'', SemVer 1 2 2 []), (''1.1.9'', SemVer 1 1 9 []),
      (''1.0.0'', SemVer 1 0 0 []), (''2.0.0'', SemVer 2 0 0 []),
      (''1.2.2-rc1'', SemVer 1 2 2 [AlphanumId ''rc1''])]"

definition demo_url_parse :: "string \<Rightarrow> request_url option" where
  "demo_url_parse = map_of
     [(''https://dp1.example/health_check'',
       \<lparr>origin = ''https://dp1.example'', pathname = ''/health_check'', search = ''''\<rparr>)]"

definition demo_registry :: "int \<Rightarrow> js_error + string" where
  "demo_registry i =
     (if i = 0 then Inr ''1.0.0'' else if i = 1 then Inr ''1.1.9''
      else if i = 2 then Inr ''1.2.3'' else Inl (Thrown ''no such version''))"

definition demo_env :: env where
  "demo_env =
     \<lparr>DISCOVERY_SERVICE_NAME = ''discovery-node'', UNHEALTHY_BLOCK_DIFF = 15,
      REGRESSED_MODE_TIMEOUT = 120, selectionCallback = None, healthCheck = None,
      unhealthySlotDiffPlays = Some 10, getNumberOfVersions = Inr 3,
      getVersion = demo_registry, semver_parse = demo_parse, url_parse = demo_url_parse\<rparr>"

definition demo_backup :: "string \<Rightarrow> int \<Rightarrow> health_data" where
  "demo_backup v d =
     \<lparr>block_difference = d, service = ''discovery-node'', version = v, plays = None, telemetry = []\<rparr>"

definition demo_selector :: "(string \<times> health_data) list \<Rightarrow> selector" where
  "demo_selector bs =
     \<lparr>currentVersion = ''1.2.3'', regressedMode = False, validVersions = None, backups = bs,
      decisionTree = [], clock = 0, timers = [], registryQueries = []\<rparr>"

definition demo_response :: "int \<Rightarrow> string \<Rightarrow> int \<Rightarrow> int option \<Rightarrow> response" where
  "demo_response st v d sd =
     \<lparr>status = st,
      config_url = ''https://dp1.example/health_check'',
      data = \<lparr>block_difference = d, service = ''discovery-node'', version = v,
              plays = Some (Plays (Some (TxInfo sd))), telemetry = []\<rparr>\<rparr>"

definition demo_urlMap :: "string \<rightharpoonup> string" where
  "demo_urlMap = map_of [(''https://dp1.example/health_check'', ''https://dp1.example'')]"

text \<open>A selector with a monitoring callback, and a probe whose URL has no scheme.\<close>

definition monitored_env :: env where
  "monitored_env = demo_env\<lparr>healthCheck := Some (\<lambda>metrics. None)\<rparr>"

definition demo_schemeless :: response where
  "demo_schemeless = (demo_response 200 ''1.2.3'' 3 None)\<lparr>config_url := ''dp1.example/health_check''\<rparr>"

definition twice_regressed :: selector where
  "twice_regressed =
     enterRegressedMode demo_env (runTimers 5 (enterRegressedMode demo_env (demo_selector [])))"

definition throwing_env :: env where
  "throwing_env = demo_env\<lparr>selectionCallback := Some (\<lambda>endpoint tree. Some (Thrown ''callback failed''))\<rparr>"

definition demo_super_select :: "selector \<Rightarrow> (js_error + string option) \<times> selector" where
  "demo_super_select s = (Inr (Some ''https://dp1.example''), s)"

definition demo_ready :: "(string \<times> health_data) list \<Rightarrow> selector" where
  "demo_ready bs =
     (demo_selector bs)\<lparr>validVersions := Some [''1.2.3'', ''1.1.9'', ''1.0.0''],
        registryQueries := [QueryNumberOfVersions, QueryVersion 1, QueryVersion 0]\<rparr>"

definition demo_fresh :: "(string \<times> health_data) list" where
  "demo_fresh = [(''https://dp1.example'', demo_backup ''1.2.2'' 3)]"

definition demo_lagging :: "(string \<times> health_data) list" where
  "demo_lagging = [(''https://dp1.example'', demo_backup ''1.2.2'' 100),
                   (''https://dp2.example'', demo_backup ''1.2.2'' 20)]"

definition demo_unregistered :: "(string \<times> health_data) list" where
  "demo_unregistered = [(''https://dp1.example'', demo_backup ''2.0.0'' 0),
                        (''https://dp2.example'', demo_backup ''1.1.9'' 500)]"

definition demo_two_versions :: "(string \<times> health_data) list" where
  "demo_two_versions = [(''https://dp1.example'', demo_backup ''1.1.9'' 3),
                        (''https://dp2.example'', demo_backup ''1.2.2'' 4)]"

definition demo_prerelease :: "(string \<times> health_data) list" where
  "demo_prerelease = [(''https://dp1.example'', demo_backup ''1.2.2-rc1'' 3),
                      (''https://dp2.example'', demo_backup ''1.2.2'' 4)]"


definition demo_past :: "int \<Rightarrow> string" where
  "demo_past i = (if i = 0 then ''1.0.0'' else ''1.1.9'')"

definition demo_at_threshold :: "(string \<times> health_data) list" where
  "demo_at_threshold = [(''https://dp1.example'', demo_backup ''1.2.2'' 15)]"

section \<open>Properties of the parts\<close>

subsection \<open>The valid-version filter and the keyed maps\<close>

lemma isVersionOk_iff: "isVersionOk E vv v \<longleftrightarrow> (\<exists>x \<in> set vv. hasSameMajorAndMinorVersion E x v)"
  by (induction vv) auto

lemma isVersionOk_parses: "isVersionOk E vv v \<Longrightarrow> semver_parse E v \<noteq> None"
  by (auto simp: isVersionOk_iff hasSameMajorAndMinorVersion_def split: option.splits)

lemma collect_versions:
  "versions (collectBackups E vv bs ks acc) = versions acc @ map (versionOf bs) (filter (okKey E vv bs) ks)"
  by (induction ks arbitrary: acc)
     (auto simp: collectBackup_def okKey_def versionOf_def split: option.splits)

lemma collect_blockDiffs:
  "blockDiffs (collectBackups E vv bs ks acc) = blockDiffs acc @ map (blockDiffOf bs) (filter (okKey E vv bs) ks)"
  by (induction ks arbitrary: acc)
     (auto simp: collectBackup_def okKey_def blockDiffOf_def split: option.splits)

lemma collect_versionMap:
  "versionMap (collectBackups E vv bs ks acc) v =
     (case versionMap acc v of
        None \<Rightarrow> (if grouped (okKey E vv bs) (versionOf bs) ks v = [] then None
                 else Some (grouped (okKey E vv bs) (versionOf bs) ks v))
      | Some l \<Rightarrow> Some (l @ grouped (okKey E vv bs) (versionOf bs) ks v))"
  by (induction ks arbitrary: acc)
     (auto simp: collectBackup_def okKey_def versionOf_def grouped_def push_to_def split: option.splits)

lemma collect_blockDiffMap:
  "blockDiffMap (collectBackups E vv bs ks acc) d =
     (case blockDiffMap acc d of
        None \<Rightarrow> (if grouped (okKey E vv bs) (blockDiffOf bs) ks d = [] then None
                 else Some (grouped (okKey E vv bs) (blockDiffOf bs) ks d))
      | Some l \<Rightarrow> Some (l @ grouped (okKey E vv bs) (blockDiffOf bs) ks d))"
  by (induction ks arbitrary: acc)
     (auto simp: collectBackup_def okKey_def blockDiffOf_def grouped_def push_to_def split: option.splits)

subsection \<open>The walk over the versions\<close>

lemma firstUnderThreshold_find:
  "set es \<subseteq> fst ` set bs \<Longrightarrow> firstUnderThreshold E bs es = Inr (find (underThreshold E bs) es)"
proof (induction es)
  case Nil
  then show ?case by simp
next
  case (Cons e es)
  then obtain b where "map_of bs e = Some b"
    by (cases "map_of bs e") (auto simp: map_of_eq_None_iff)
  with Cons show ?case by (simp add: underThreshold_def)
qed

lemma walkVersions_find:
  assumes "\<And>v. v \<in> set vs \<Longrightarrow> vm v = Some (g v)"
    and "\<And>v. v \<in> set vs \<Longrightarrow> set (g v) \<subseteq> fst ` set bs"
    and "\<not> truthy sel"
  shows "walkVersions E bs vm vs sel =
     Inr (case find (\<lambda>v. truthy (find (underThreshold E bs) (g v))) vs of
            None \<Rightarrow> None
          | Some v \<Rightarrow> find (underThreshold E bs) (g v))"
  using assms
proof (induction vs arbitrary: sel)
  case Nil
  then show ?case by simp
next
  case (Cons v vs)
  have f: "firstUnderThreshold E bs (g v) = Inr (find (underThreshold E bs) (g v))"
    using Cons.prems(2) by (simp add: firstUnderThreshold_find)
  show ?case
  proof (cases "truthy (find (underThreshold E bs) (g v))")
    case True
    then show ?thesis using Cons.prems(1) f
      by (auto simp: truthy_def split: option.splits)
  next
    case False
    let ?sel' = "case find (underThreshold E bs) (g v) of None \<Rightarrow> sel | Some e \<Rightarrow> Some e"
    have nt: "\<not> truthy ?sel'" using False Cons.prems(3) by (auto split: option.splits)
    have "walkVersions E bs vm vs ?sel' =
       Inr (case find (\<lambda>v. truthy (find (underThreshold E bs) (g v))) vs of
            None \<Rightarrow> None
          | Some v \<Rightarrow> find (underThreshold E bs) (g v))"
      using Cons.IH[OF _ _ nt] Cons.prems(1,2) by simp
    then show ?thesis using Cons.prems(1) f False nt by (simp add: Let_def)
  qed
qed

subsection \<open>The method in closed form\<close>

lemma set_js_insort: "set (js_insort cmp x xs) = insert x (set xs)"
  by (induction xs) auto

lemma set_js_sort: "set (js_sort cmp xs) = set xs"
  by (induction xs) (auto simp: set_js_insort)

lemma js_sort_Nil: "js_sort cmp xs = [] \<longleftrightarrow> xs = []"
  using set_js_sort[of cmp xs] by (metis set_empty)

lemma index_versions:
  "versions (collectBackups E vv bs (map fst bs) empty_index) = map (versionOf bs) (filteredKeys E vv bs)"
  by (simp add: collect_versions empty_index_def filteredKeys_def)

lemma index_blockDiffs:
  "blockDiffs (collectBackups E vv bs (map fst bs) empty_index) = map (blockDiffOf bs) (filteredKeys E vv bs)"
  by (simp add: collect_blockDiffs empty_index_def filteredKeys_def)

lemma index_versionMap:
  "versionMap (collectBackups E vv bs (map fst bs) empty_index) v =
     (if versionGroup E vv bs v = [] then None else Some (versionGroup E vv bs v))"
  by (simp add: collect_versionMap empty_index_def versionGroup_def)

lemma index_blockDiffMap:
  "blockDiffMap (collectBackups E vv bs (map fst bs) empty_index) d =
     (if grouped (okKey E vv bs) (blockDiffOf bs) (map fst bs) d = [] then None
      else Some (grouped (okKey E vv bs) (blockDiffOf bs) (map fst bs) d))"
  by (simp add: collect_blockDiffMap empty_index_def)

lemma versionGroup_nonempty:
  "k \<in> set (filteredKeys E vv bs) \<Longrightarrow> k \<in> set (versionGroup E vv bs (versionOf bs k))"
  by (auto simp: filteredKeys_def versionGroup_def grouped_def)

lemma versionGroup_subset: "set (versionGroup E vv bs v) \<subseteq> fst ` set bs"
  by (auto simp: versionGroup_def grouped_def)

lemma versionStep_closed:
  "walkVersions E bs (versionMap (collectBackups E vv bs (map fst bs) empty_index))
     (js_sort (semver_rcompare E) (versions (collectBackups E vv bs (map fst bs) empty_index))) None
   = Inr (firstChoice E vv bs)"
proof -
  let ?vs = "js_sort (semver_rcompare E) (map (versionOf bs) (filteredKeys E vv bs))"
  have a: "\<And>v. v \<in> set ?vs \<Longrightarrow>
     versionMap (collectBackups E vv bs (map fst bs) empty_index) v = Some (versionGroup E vv bs v)"
  proof -
    fix v assume "v \<in> set ?vs"
    then obtain k where "k \<in> set (filteredKeys E vv bs)" "v = versionOf bs k"
      by (auto simp: set_js_sort)
    then have "versionGroup E vv bs v \<noteq> []" using versionGroup_nonempty by fastforce
    then show "versionMap (collectBackups E vv bs (map fst bs) empty_index) v = Some (versionGroup E vv bs v)"
      by (simp add: index_versionMap)
  qed
  have b: "\<And>v. v \<in> set ?vs \<Longrightarrow> set (versionGroup E vv bs v) \<subseteq> fst ` set bs"
    by (rule versionGroup_subset)
  have c: "\<not> truthy None" by (simp add: truthy_def)
  show ?thesis
    unfolding index_versions firstChoice_def
    by (rule walkVersions_find[OF a b c])
qed

lemma selectFromBackups_closed:
  assumes "ensureValidVersions E s = (Inr u, s1)" and "validVersions s1 = Some vv"
  shows "selectFromBackups E s =
     (case firstChoice E vv (backups s1) of
        Some e \<Rightarrow> (Inr (Some e), s1)
      | None \<Rightarrow>
          (case lastResort E vv (backups s1) of
             None \<Rightarrow> (Inl TypeError, s1)
           | Some e \<Rightarrow> (Inr (Some e), enterRegressedMode E s1)))"
proof -
  let ?bs = "backups s1"
  let ?idx = "collectBackups E vv ?bs (map fst ?bs) empty_index"
  have w: "walkVersions E ?bs (versionMap ?idx) (js_sort (semver_rcompare E) (versions ?idx)) None
             = Inr (firstChoice E vv ?bs)"
    by (rule versionStep_closed)
  show ?thesis
  proof (cases "firstChoice E vv ?bs")
    case (Some e)
    then show ?thesis using assms w by (simp add: selectFromBackups_def Let_def)
  next
    case None
    show ?thesis
    proof (cases "js_sort default_compare (map (blockDiffOf ?bs) (filteredKeys E vv ?bs))")
      case Nil
      then show ?thesis using assms w None
        by (simp add: selectFromBackups_def Let_def lastResort_def index_blockDiffs)
    next
      case (Cons d rest)
      then show ?thesis using assms w None
        by (simp add: selectFromBackups_def Let_def lastResort_def index_blockDiffs index_blockDiffMap
                 split: list.splits)
    qed
  qed
qed

subsection \<open>Building the valid versions\<close>

lemma fetchPastVersions_frame:
  "backups (snd (fetchPastVersions E n i s)) = backups s \<and>
   regressedMode (snd (fetchPastVersions E n i s)) = regressedMode s \<and>
   timers (snd (fetchPastVersions E n i s)) = timers s \<and>
   clock (snd (fetchPastVersions E n i s)) = clock s \<and>
   currentVersion (snd (fetchPastVersions E n i s)) = currentVersion s \<and>
   decisionTree (snd (fetchPastVersions E n i s)) = decisionTree s"
proof (induction E n i s rule: fetchPastVersions.induct)
  case (1 E n i s)
  show ?case
    using "1.IH"
    by (subst (1 2 3 4 5 6) fetchPastVersions.simps)
       (auto simp: Let_def split: sum.splits option.splits)
qed

lemma fetchPastVersions_valid:
  "validVersions s \<noteq> None \<Longrightarrow> validVersions (snd (fetchPastVersions E n i s)) \<noteq> None"
proof (induction E n i s rule: fetchPastVersions.induct)
  case (1 E n i s)
  show ?case
    using "1.IH" "1.prems"
    by (subst fetchPastVersions.simps)
       (auto simp: Let_def split: sum.splits option.splits)
qed

lemma ensureValidVersions_frame:
  "backups (snd (ensureValidVersions E s)) = backups s \<and>
   regressedMode (snd (ensureValidVersions E s)) = regressedMode s \<and>
   timers (snd (ensureValidVersions E s)) = timers s \<and>
   clock (snd (ensureValidVersions E s)) = clock s \<and>
   currentVersion (snd (ensureValidVersions E s)) = currentVersion s \<and>
   decisionTree (snd (ensureValidVersions E s)) = decisionTree s"
  by (auto simp: ensureValidVersions_def Let_def fetchPastVersions_frame split: option.splits sum.splits)

lemma ensureValidVersions_valid:
  "validVersions (snd (ensureValidVersions E s)) \<noteq> None"
proof (cases "validVersions s")
  case (Some vv)
  then show ?thesis by (simp add: ensureValidVersions_def)
next
  case None
  have "validVersions (snd (fetchPastVersions E n 0
      (s\<lparr>validVersions := Some [currentVersion s],
         registryQueries := registryQueries s @ [QueryNumberOfVersions]\<rparr>))) \<noteq> None" for n
    by (rule fetchPastVersions_valid) simp
  then show ?thesis using None
    by (simp add: ensureValidVersions_def Let_def split: sum.splits)
qed

lemma ensureValidVersions_cached:
  "validVersions s = Some vv \<Longrightarrow> ensureValidVersions E s = (Inr (), s)"
  by (simp add: ensureValidVersions_def)

lemma fetchPastVersions_closed:
  assumes "validVersions s \<noteq> None"
    and "\<forall>j \<in> set [i..min PREVIOUS_VERSIONS_TO_CHECK (n - 1) - 1]. getVersion E (n - 2 - j) = Inr (reg (n - 2 - j))"
  shows "fetchPastVersions E n i s =
     (Inr (), s\<lparr>validVersions :=
                  map_option (\<lambda>acc. acc @ map (\<lambda>j. reg (n - 2 - j)) [i..min PREVIOUS_VERSIONS_TO_CHECK (n - 1) - 1])
                    (validVersions s),
                registryQueries := registryQueries s @
                  map (\<lambda>j. QueryVersion (n - 2 - j)) [i..min PREVIOUS_VERSIONS_TO_CHECK (n - 1) - 1]\<rparr>)"
  using assms
proof (induction E n i s rule: fetchPastVersions.induct)
  case (1 E n i s)
  let ?m = "min PREVIOUS_VERSIONS_TO_CHECK (n - 1)"
  obtain acc where acc: "validVersions s = Some acc" using "1.prems"(1) by auto
  show ?case
  proof (cases "i < ?m")
    case False
    then have "[i..?m - 1] = []" by (simp add: min_def split: if_splits)
    then show ?thesis using False acc
      by (subst fetchPastVersions.simps) (simp del: min_less_iff_conj)
  next
    case True
    then have up: "[i..?m - 1] = i # [i + 1..?m - 1]" by (simp add: upto_rec1)
    have g: "getVersion E (n - 2 - i) = Inr (reg (n - 2 - i))"
      using "1.prems"(2) up by simp
    let ?s1 = "s\<lparr>registryQueries := registryQueries s @ [QueryVersion (n - 2 - i)]\<rparr>"
    let ?s2 = "?s1\<lparr>validVersions := Some (acc @ [reg (n - 2 - i)])\<rparr>"
    have rest: "\<forall>j \<in> set [i + 1..?m - 1]. getVersion E (n - 2 - j) = Inr (reg (n - 2 - j))"
      using "1.prems"(2) up by simp
    have ih: "fetchPastVersions E n (i + 1) ?s2 =
      (Inr (), ?s2\<lparr>validVersions :=
                  map_option (\<lambda>acc. acc @ map (\<lambda>j. reg (n - 2 - j)) [i + 1..?m - 1]) (validVersions ?s2),
                registryQueries := registryQueries ?s2 @ map (\<lambda>j. QueryVersion (n - 2 - j)) [i + 1..?m - 1]\<rparr>)"
      using "1.IH"[OF True refl g _ _ rest, of acc] acc by simp
    show ?thesis
      using True g acc ih up
      by (subst fetchPastVersions.simps) (simp add: Let_def del: min_less_iff_conj)
  qed
qed

subsection \<open>The order of the versions\<close>

lemma find_Some_set: "find P xs = Some x \<Longrightarrow> P x \<and> x \<in> set xs"
  by (induction xs) (auto split: if_splits)

lemma find_None_set: "find P xs = None \<longleftrightarrow> (\<forall>x \<in> set xs. \<not> P x)"
  by (induction xs) auto

lemma find_first_sorted:
  "sorted_wrt R xs \<Longrightarrow> find P xs = Some x \<Longrightarrow> y \<in> set xs \<Longrightarrow> P y \<Longrightarrow> x = y \<or> R x y"
  by (induction xs) (auto split: if_splits)

lemma string_lt_irrefl: "\<not> string_lt s s"
  by (induction s) auto

lemma string_lt_asym: "string_lt s t \<Longrightarrow> \<not> string_lt t s"
  by (induction s t rule: string_lt.induct) (auto split: if_splits)

lemma string_lt_trans: "string_lt s t \<Longrightarrow> string_lt t u \<Longrightarrow> string_lt s u"
proof (induction s t arbitrary: u rule: string_lt.induct)
  case (4 x xs y ys)
  then show ?case by (cases u) (auto split: if_splits)
qed (case_tac u, auto)+

lemma string_lt_total: "s \<noteq> t \<Longrightarrow> string_lt s t \<or> string_lt t s"
proof (induction s t rule: string_lt.induct)
  case (4 x xs y ys)
  then show ?case
    by (cases "(of_char x :: nat) = of_char y") auto
qed auto

lemma compareIdentifiers_zero: "compareIdentifiers a b = 0 \<longleftrightarrow> a = b"
  by (cases a; cases b) (auto simp: compareIdentifiers_def)

lemma compareIdentifiers_alphanum:
  "compareIdentifiers (AlphanumId s) (AlphanumId t) = (if s = t then 0 else if string_lt s t then - 1 else 1)"
  by (simp add: compareIdentifiers_def)

lemma compareIdentifiers_mixed:
  "compareIdentifiers (NumericId m) (AlphanumId t) = - 1"
  "compareIdentifiers (AlphanumId s) (NumericId n) = 1"
  by (simp_all add: compareIdentifiers_def)

lemma compareIdentifiers_numeric:
  "compareIdentifiers (NumericId m) (NumericId n) = (if m = n then 0 else if m < n then - 1 else 1)"
  by (simp add: compareIdentifiers_def)

lemmas compareIdentifiers_simps =
  compareIdentifiers_alphanum compareIdentifiers_mixed compareIdentifiers_numeric

lemma compareIdentifiers_flip: "compareIdentifiers a b < 0 \<longleftrightarrow> 0 < compareIdentifiers b a"
proof (cases a)
  case (NumericId m)
  then show ?thesis by (cases b) (simp_all add: compareIdentifiers_simps)
next
  case (AlphanumId s)
  show ?thesis
  proof (cases b)
    case (NumericId n)
    then show ?thesis using AlphanumId by (simp add: compareIdentifiers_simps)
  next
    case b: (AlphanumId t)
    show ?thesis
      using string_lt_total[of s t] string_lt_asym[of s t] string_lt_asym[of t s]
      unfolding AlphanumId b compareIdentifiers_alphanum by (cases "s = t") auto
  qed
qed

lemma compareIdentifiers_lt_alphanum:
  "compareIdentifiers (AlphanumId s) (AlphanumId t) < 0 \<longleftrightarrow> string_lt s t"
  using string_lt_irrefl[of s] by (auto simp: compareIdentifiers_alphanum)

lemma compareIdentifiers_trans:
  assumes "compareIdentifiers a b < 0" and "compareIdentifiers b c < 0"
  shows "compareIdentifiers a c < 0"
proof (cases a)
  case a: (NumericId m)
  show ?thesis
  proof (cases c)
    case c: (NumericId k)
    show ?thesis
    proof (cases b)
      case (NumericId n)
      then show ?thesis using assms a c by (auto simp: compareIdentifiers_simps split: if_splits)
    next
      case (AlphanumId t)
      then show ?thesis using assms c by (simp add: compareIdentifiers_simps)
    qed
  next
    case (AlphanumId u)
    then show ?thesis using a by (simp add: compareIdentifiers_simps)
  qed
next
  case a: (AlphanumId s)
  then obtain t where b: "b = AlphanumId t"
    using assms(1) by (cases b) (simp_all add: compareIdentifiers_simps)
  then obtain u where c: "c = AlphanumId u"
    using assms(2) by (cases c) (simp_all add: compareIdentifiers_simps)
  have "string_lt s t" "string_lt t u"
    using assms unfolding a b c compareIdentifiers_lt_alphanum by simp_all
  then have "string_lt s u" by (rule string_lt_trans)
  then show ?thesis unfolding a c compareIdentifiers_lt_alphanum .
qed

lemma comparePreLoop_zero: "comparePreLoop xs ys = 0 \<longleftrightarrow> xs = ys"
  by (induction xs ys rule: comparePreLoop.induct) (auto simp: compareIdentifiers_zero)

lemma comparePreLoop_flip: "comparePreLoop xs ys < 0 \<longleftrightarrow> 0 < comparePreLoop ys xs"
  by (induction xs ys rule: comparePreLoop.induct) (auto simp: compareIdentifiers_flip)

lemma comparePreLoop_trans:
  "comparePreLoop xs ys < 0 \<Longrightarrow> comparePreLoop ys zs < 0 \<Longrightarrow> comparePreLoop xs zs < 0"
proof (induction xs ys arbitrary: zs rule: comparePreLoop.induct)
  case (4 a as b bs)
  show ?case
  proof (cases zs)
    case Nil
    then show ?thesis using 4 by simp
  next
    case (Cons c cs)
    show ?thesis
    proof (cases "a = b")
      case True
      then show ?thesis using 4 Cons by (auto split: if_splits)
    next
      case False
      then have ab: "compareIdentifiers a b < 0" using 4 by simp
      show ?thesis
      proof (cases "b = c")
        case True
        then show ?thesis using False ab Cons by simp
      next
        case bc: False
        then have "compareIdentifiers b c < 0" using 4 Cons by simp
        then have ac: "compareIdentifiers a c < 0" using ab compareIdentifiers_trans by blast
        then have "a \<noteq> c" using compareIdentifiers_zero[of a c] by auto
        then show ?thesis using ac Cons by simp
      qed
    qed
  qed
qed (case_tac zs, auto)+

lemma comparePre_zero: "comparePre x y = 0 \<longleftrightarrow> prerelease x = prerelease y"
  by (auto simp: comparePre_def comparePreLoop_zero)

lemma comparePre_flip: "comparePre x y < 0 \<longleftrightarrow> 0 < comparePre y x"
  by (auto simp: comparePre_def comparePreLoop_flip)

lemma comparePre_trans: "comparePre x y < 0 \<Longrightarrow> comparePre y z < 0 \<Longrightarrow> comparePre x z < 0"
  using comparePreLoop_trans[of "prerelease x" "prerelease y" "prerelease z"]
  by (auto simp: comparePre_def split: if_splits)

lemma compareMain_lt:
  "compareMain x y < 0 \<longleftrightarrow>
     major x < major y \<or> (major x = major y \<and> (minor x < minor y \<or> (minor x = minor y \<and> patch x < patch y)))"
  by (simp add: compareMain_def compareIdentifiers_numeric)

lemma compareMain_gt:
  "0 < compareMain x y \<longleftrightarrow>
     major y < major x \<or> (major x = major y \<and> (minor y < minor x \<or> (minor x = minor y \<and> patch y < patch x)))"
  by (simp add: compareMain_def compareIdentifiers_numeric)

lemma compareMain_zero:
  "compareMain x y = 0 \<longleftrightarrow> major x = major y \<and> minor x = minor y \<and> patch x = patch y"
  by (simp add: compareMain_def compareIdentifiers_numeric)

lemma compareMain_flip: "compareMain x y < 0 \<longleftrightarrow> 0 < compareMain y x"
  unfolding compareMain_lt compareMain_gt by auto

lemma compareMain_trans: "compareMain x y < 0 \<Longrightarrow> compareMain y z < 0 \<Longrightarrow> compareMain x z < 0"
  unfolding compareMain_lt by auto

lemma compareMain_cong_left:
  "compareMain x y = 0 \<Longrightarrow> compareMain x z = compareMain y z"
  unfolding compareMain_zero by (simp add: compareMain_def)

lemma compareMain_cong_right:
  "compareMain y z = 0 \<Longrightarrow> compareMain x y = compareMain x z"
  unfolding compareMain_zero by (simp add: compareMain_def)

lemma compareSemVer_zero: "compareSemVer x y = 0 \<longleftrightarrow> x = y"
  by (auto simp: compareSemVer_def compareMain_zero comparePre_zero semver.expand)

lemma compareSemVer_lt_flip: "compareSemVer x y < 0 \<longleftrightarrow> 0 < compareSemVer y x"
proof (cases "compareMain x y = 0")
  case True
  then have "compareMain y x = 0" by (auto simp: compareMain_zero)
  then show ?thesis using True by (simp add: compareSemVer_def comparePre_flip)
next
  case False
  then have "compareMain y x \<noteq> 0" by (auto simp: compareMain_zero)
  then show ?thesis using False by (simp add: compareSemVer_def compareMain_flip)
qed

lemma compareSemVer_lt_trans:
  assumes "compareSemVer x y < 0" and "compareSemVer y z < 0"
  shows "compareSemVer x z < 0"
proof (cases "compareMain x y = 0")
  case xy: True
  then have p: "comparePre x y < 0" using assms(1) by (simp add: compareSemVer_def)
  have m: "compareMain x z = compareMain y z" using xy by (rule compareMain_cong_left)
  show ?thesis
  proof (cases "compareMain y z = 0")
    case True
    then have "comparePre y z < 0" using assms(2) by (simp add: compareSemVer_def)
    then show ?thesis using p m True comparePre_trans by (simp add: compareSemVer_def)
  next
    case False
    then show ?thesis using assms(2) m by (simp add: compareSemVer_def)
  qed
next
  case xy: False
  then have l: "compareMain x y < 0" using assms(1) by (simp add: compareSemVer_def)
  show ?thesis
  proof (cases "compareMain y z = 0")
    case True
    then have "compareMain x z = compareMain x y" using compareMain_cong_right by metis
    then show ?thesis using l xy by (simp add: compareSemVer_def)
  next
    case False
    then have "compareMain y z < 0" using assms(2) by (simp add: compareSemVer_def)
    then have "compareMain x z < 0" using l compareMain_trans by blast
    then show ?thesis by (simp add: compareSemVer_def)
  qed
qed

lemma compareSemVer_refl: "compareSemVer x x = 0"
  by (simp add: compareSemVer_zero)

lemma compareSemVer_flip: "compareSemVer y x \<le> 0 \<longleftrightarrow> 0 \<le> compareSemVer x y"
  using compareSemVer_lt_flip[of y x] compareSemVer_lt_flip[of x y]
    compareSemVer_zero[of x y] compareSemVer_zero[of y x]
  by (cases "x = y") auto

lemma compareSemVer_trans:
  "0 \<le> compareSemVer x y \<Longrightarrow> 0 \<le> compareSemVer y z \<Longrightarrow> 0 \<le> compareSemVer x z"
proof -
  assume a: "0 \<le> compareSemVer x y" and b: "0 \<le> compareSemVer y z"
  show ?thesis
  proof (cases "x = y \<or> y = z")
    case True
    then show ?thesis using a b by auto
  next
    case False
    then have "0 < compareSemVer x y" "0 < compareSemVer y z"
      using a b compareSemVer_zero[of x y] compareSemVer_zero[of y z] by auto
    then have "compareSemVer z y < 0" "compareSemVer y x < 0"
      by (simp_all add: compareSemVer_lt_flip)
    then have "compareSemVer z x < 0" by (rule compareSemVer_lt_trans)
    then show ?thesis by (simp add: compareSemVer_lt_flip)
  qed
qed

lemma compareSemVer_strict_trans:
  "0 \<le> compareSemVer x y \<Longrightarrow> 0 < compareSemVer y z \<Longrightarrow> 0 < compareSemVer x z"
proof -
  assume a: "0 \<le> compareSemVer x y" and b: "0 < compareSemVer y z"
  show ?thesis
  proof (cases "x = y")
    case True
    then show ?thesis using b by simp
  next
    case False
    then have "0 < compareSemVer x y" using a compareSemVer_zero[of x y] by auto
    then have "compareSemVer y x < 0" "compareSemVer z y < 0"
      using b by (simp_all add: compareSemVer_lt_flip)
    then have "compareSemVer z x < 0" using compareSemVer_lt_trans by blast
    then show ?thesis by (simp add: compareSemVer_lt_flip)
  qed
qed

lemma semver_ge_trans:
  "semver_parse E b \<noteq> None \<Longrightarrow> semver_ge E a b \<Longrightarrow> semver_ge E b c \<Longrightarrow> semver_ge E a c"
  by (auto simp: semver_ge_def semver_compare_def split: option.splits intro: compareSemVer_trans)

lemma semver_ge_flip:
  "semver_rcompare E x y \<le> 0 \<Longrightarrow> semver_ge E x y"
  "\<not> semver_rcompare E x y \<le> 0 \<Longrightarrow> semver_ge E y x"
  using compareSemVer_flip
  by (auto simp: semver_ge_def semver_rcompare_def semver_compare_def split: option.splits)

lemma sorted_js_insort:
  assumes "\<forall>y \<in> set ys. semver_parse E y \<noteq> None" and "sorted_wrt (semver_ge E) ys"
  shows "sorted_wrt (semver_ge E) (js_insort (semver_rcompare E) x ys)"
  using assms
proof (induction ys)
  case Nil
  then show ?case by simp
next
  case (Cons y ys)
  show ?case
  proof (cases "semver_rcompare E x y \<le> 0")
    case True
    then have xy: "semver_ge E x y" by (rule semver_ge_flip)
    have "\<forall>z \<in> set ys. semver_ge E x z"
      using Cons.prems xy by (auto intro: semver_ge_trans[of E y x])
    then show ?thesis using True xy Cons.prems by simp
  next
    case False
    then have yx: "semver_ge E y x" by (rule semver_ge_flip)
    then show ?thesis using False Cons by (auto simp: set_js_insort)
  qed
qed

lemma sorted_js_sort:
  "\<forall>x \<in> set xs. semver_parse E x \<noteq> None \<Longrightarrow> sorted_wrt (semver_ge E) (js_sort (semver_rcompare E) xs)"
  by (induction xs) (auto simp: sorted_js_insort set_js_sort)

subsection \<open>What the two steps return\<close>

lemma okKey_D:
  "okKey E vv bs k \<Longrightarrow> \<exists>b. map_of bs k = Some b \<and> isVersionOk E vv (version b)"
  by (auto simp: okKey_def split: option.splits)

lemma filteredKeys_iff:
  "k \<in> set (filteredKeys E vv bs) \<longleftrightarrow> (\<exists>b. map_of bs k = Some b \<and> isVersionOk E vv (version b))"
proof
  assume "k \<in> set (filteredKeys E vv bs)"
  then show "\<exists>b. map_of bs k = Some b \<and> isVersionOk E vv (version b)"
    by (auto simp: filteredKeys_def okKey_def split: option.splits)
next
  assume "\<exists>b. map_of bs k = Some b \<and> isVersionOk E vv (version b)"
  then obtain b where b: "map_of bs k = Some b" "isVersionOk E vv (version b)" by auto
  then have "(k, b) \<in> set bs" by (simp add: map_of_SomeD)
  then have "k \<in> fst ` set bs" by force
  then show "k \<in> set (filteredKeys E vv bs)" using b by (simp add: filteredKeys_def okKey_def)
qed

lemma versionGroup_iff:
  "k \<in> set (versionGroup E vv bs v) \<longleftrightarrow> k \<in> set (filteredKeys E vv bs) \<and> versionOf bs k = v"
  by (auto simp: versionGroup_def grouped_def filteredKeys_def)

lemma firstChoice_Some:
  assumes "firstChoice E vv bs = Some e"
  shows "e \<in> set (filteredKeys E vv bs) \<and> underThreshold E bs e \<and>
         find (underThreshold E bs) (versionGroup E vv bs (versionOf bs e)) = Some e"
proof -
  from assms obtain v where v: "find (underThreshold E bs) (versionGroup E vv bs v) = Some e"
    by (auto simp: firstChoice_def split: option.splits)
  then have "underThreshold E bs e" "e \<in> set (versionGroup E vv bs v)"
    using find_Some_set by fastforce+
  then show ?thesis using v by (auto simp: versionGroup_iff)
qed

lemma firstChoice_None_iff:
  assumes "[] \<notin> fst ` set bs"
  shows "firstChoice E vv bs = None \<longleftrightarrow> (\<forall>k \<in> set (filteredKeys E vv bs). \<not> underThreshold E bs k)"
proof
  assume n: "firstChoice E vv bs = None"
  show "\<forall>k \<in> set (filteredKeys E vv bs). \<not> underThreshold E bs k"
  proof (rule ballI, rule notI)
    fix k assume k: "k \<in> set (filteredKeys E vv bs)" and u: "underThreshold E bs k"
    let ?v = "versionOf bs k"
    let ?P = "\<lambda>v. truthy (find (underThreshold E bs) (versionGroup E vv bs v))"
    have "k \<in> set (versionGroup E vv bs ?v)" using k by (simp add: versionGroup_iff)
    then have "find (underThreshold E bs) (versionGroup E vv bs ?v) \<noteq> None"
      using u by (auto simp: find_None_set)
    then obtain e where e: "find (underThreshold E bs) (versionGroup E vv bs ?v) = Some e" by auto
    then have "e \<in> fst ` set bs" using find_Some_set versionGroup_subset by fastforce
    then have "e \<noteq> []" using assms by blast
    then have P: "?P ?v" using e by (simp add: truthy_def)
    have "?v \<in> set (js_sort (semver_rcompare E) (map (versionOf bs) (filteredKeys E vv bs)))"
      using k by (simp add: set_js_sort)
    then have "find ?P (js_sort (semver_rcompare E) (map (versionOf bs) (filteredKeys E vv bs))) \<noteq> None"
      using P by (auto simp: find_None_set)
    then obtain w where w: "find ?P (js_sort (semver_rcompare E) (map (versionOf bs) (filteredKeys E vv bs))) = Some w"
      by auto
    then have "?P w" using find_Some_set by fastforce
    then have "find (underThreshold E bs) (versionGroup E vv bs w) \<noteq> None"
      by (auto simp: truthy_def split: option.splits)
    then show False using n w by (simp add: firstChoice_def)
  qed
next
  assume a: "\<forall>k \<in> set (filteredKeys E vv bs). \<not> underThreshold E bs k"
  show "firstChoice E vv bs = None"
  proof (cases "firstChoice E vv bs")
    case None then show ?thesis .
  next
    case (Some e)
    then show ?thesis using firstChoice_Some a by blast
  qed
qed

lemma lastResort_Some:
  assumes "filteredKeys E vv bs \<noteq> []"
  shows "\<exists>e. lastResort E vv bs = Some e \<and> e \<in> set (filteredKeys E vv bs)"
proof -
  let ?ds = "map (blockDiffOf bs) (filteredKeys E vv bs)"
  have "js_sort default_compare ?ds \<noteq> []" using assms by (simp add: js_sort_Nil)
  then obtain d rest where d: "js_sort default_compare ?ds = d # rest" by (cases "js_sort default_compare ?ds") auto
  then have "d \<in> set ?ds" using set_js_sort[of default_compare ?ds] by auto
  then obtain k where k: "k \<in> set (filteredKeys E vv bs)" "blockDiffOf bs k = d" by auto
  then have "k \<in> set (grouped (okKey E vv bs) (blockDiffOf bs) (map fst bs) d)"
    by (auto simp: grouped_def filteredKeys_def)
  then obtain e others where e: "grouped (okKey E vv bs) (blockDiffOf bs) (map fst bs) d = e # others"
    by (cases "grouped (okKey E vv bs) (blockDiffOf bs) (map fst bs) d") auto
  then have "e \<in> set (grouped (okKey E vv bs) (blockDiffOf bs) (map fst bs) d)" by simp
  then have "e \<in> set (filteredKeys E vv bs)" by (auto simp: grouped_def filteredKeys_def)
  then show ?thesis using d e by (simp add: lastResort_def)
qed

lemma lastResort_None: "filteredKeys E vv bs = [] \<Longrightarrow> lastResort E vv bs = None"
  by (simp add: lastResort_def)

lemma lastResort_set: "lastResort E vv bs = Some e \<Longrightarrow> e \<in> set (filteredKeys E vv bs)"
  using lastResort_Some[of E vv bs] lastResort_None[of E vv bs] by (cases "filteredKeys E vv bs = []") auto

subsection \<open>The checks of isHealthy\<close>

lemma monitorHealthCheck_None:
  "healthCheck E = None \<or> url_parse E (config_url r) \<noteq> None \<Longrightarrow> monitorHealthCheck E r = None"
  by (auto simp: monitorHealthCheck_def try_catch_def split: option.splits)

lemma monitorHealthCheck_throws:
  "healthCheck E \<noteq> None \<Longrightarrow> url_parse E (config_url r) = None \<Longrightarrow> monitorHealthCheck E r = Some TypeError"
  by (auto simp: monitorHealthCheck_def split: option.splits)

lemma slotDiffTrips_inline:
  "(case slotDiffPlays d of None \<Rightarrow> False
    | Some sd \<Rightarrow> (case unhealthySlotDiffPlays E of None \<Rightarrow> False | Some u \<Rightarrow> sd > u)) = slotDiffTrips E d"
proof (cases "plays d")
  case None
  then show ?thesis by (simp add: slotDiffPlays_def slotDiffTrips_def)
next
  case (Some p)
  obtain t where p: "p = Plays t" by (cases p)
  show ?thesis
  proof (cases t)
    case None
    then show ?thesis using Some p by (simp add: slotDiffPlays_def slotDiffTrips_def)
  next
    case (Some i)
    obtain sd where i: "i = TxInfo sd" by (cases i)
    show ?thesis using \<open>plays d = Some p\<close> p Some i
      by (cases sd) (simp_all add: slotDiffPlays_def slotDiffTrips_def split: option.splits)
  qed
qed

lemma isHealthy_closed:
  assumes "monitorHealthCheck E r = None"
  shows "isHealthy E s r urlMap =
     (if status r = 200 \<and> service (data r) = DISCOVERY_SERVICE_NAME E \<and>
         semver_valid E (version (data r)) \<and>
         hasSameMajorAndMinorVersion E (currentVersion s) (version (data r))
      then (if patchLower E (version (data r)) (currentVersion s) \<or>
               UNHEALTHY_BLOCK_DIFF E < block_difference (data r) \<or> slotDiffTrips E (data r)
            then (Inr False, s\<lparr>backups := addBackup (canonical urlMap r) (data r) (backups s)\<rparr>)
            else (Inr True, s))
      else (Inr False, s))"
proof (cases "hasSameMajorAndMinorVersion E (currentVersion s) (version (data r))")
  case False
  then show ?thesis by (simp add: isHealthy_def assms)
next
  case True
  then obtain x y where p: "semver_parse E (currentVersion s) = Some x"
      "semver_parse E (version (data r)) = Some y"
    by (auto simp: hasSameMajorAndMinorVersion_def split: option.splits)
  then have q: "semver_patch E (currentVersion s) = Inr (patch x)"
      "semver_patch E (version (data r)) = Inr (patch y)"
      "patchLower E (version (data r)) (currentVersion s) = (patch y < patch x)"
    by (simp_all add: semver_patch_def patchLower_def)
  show ?thesis by (simp add: isHealthy_def assms q slotDiffTrips_inline)
qed

lemma isHealthy_throws:
  "monitorHealthCheck E r = Some e \<Longrightarrow> isHealthy E s r urlMap = (Inl e, s)"
  by (simp add: isHealthy_def)

text \<open>
  What the monitoring callback does, throw or finish, changes nothing of what
  \<^verbatim>\<open>isHealthy\<close> returns or records.
\<close>

lemma isHealthy_swallows_callback:
  "isHealthy (E\<lparr>healthCheck := Some cb\<rparr>) s r urlMap = isHealthy (E\<lparr>healthCheck := Some cb'\<rparr>) s r urlMap"
proof -
  have e: "semver_valid (E\<lparr>healthCheck := c\<rparr>) = semver_valid E"
    "hasSameMajorAndMinorVersion (E\<lparr>healthCheck := c\<rparr>) = hasSameMajorAndMinorVersion E"
    "patchLower (E\<lparr>healthCheck := c\<rparr>) = patchLower E"
    "slotDiffTrips (E\<lparr>healthCheck := c\<rparr>) = slotDiffTrips E" for c
    by (simp_all add: fun_eq_iff semver_valid_def hasSameMajorAndMinorVersion_def patchLower_def
        slotDiffTrips_def split: option.splits plays_info.splits tx_info.splits)
  show ?thesis
  proof (cases "url_parse E (config_url r)")
    case None
    then have "monitorHealthCheck (E\<lparr>healthCheck := Some c\<rparr>) r = Some TypeError" for c
      by (simp add: monitorHealthCheck_def)
    then show ?thesis by (simp add: isHealthy_throws)
  next
    case (Some url)
    then have "monitorHealthCheck (E\<lparr>healthCheck := Some c\<rparr>) r = None" for c
      by (simp add: monitorHealthCheck_def try_catch_def split: option.splits)
    then show ?thesis by (simp only: isHealthy_closed e) simp
  qed
qed

subsection \<open>Consequences for the method\<close>

lemma firstUnderThreshold_under:
  "firstUnderThreshold E bs es = Inr (Some e) \<Longrightarrow> underThreshold E bs e"
  by (induction es) (auto simp: underThreshold_def split: option.splits if_splits)

lemma walkVersions_under:
  "walkVersions E bs vm vs sel = Inr (Some e) \<Longrightarrow> \<not> truthy sel \<Longrightarrow> underThreshold E bs e"
proof (induction vs arbitrary: sel)
  case Nil
  then show ?case by simp
next
  case (Cons v vs)
  then show ?case
    by (auto simp: Let_def truthy_def split: option.splits sum.splits if_splits
             dest: firstUnderThreshold_under)
qed

lemma selectFromBackups_after_ensure:
  "snd (selectFromBackups E s) = snd (ensureValidVersions E s) \<or>
   snd (selectFromBackups E s) = enterRegressedMode E (snd (ensureValidVersions E s))"
proof (cases "ensureValidVersions E s")
  case (Pair r s1)
  show ?thesis
  proof (cases r)
    case (Inl e)
    then show ?thesis using Pair by (simp add: selectFromBackups_def)
  next
    case (Inr u)
    obtain vv where vv: "validVersions s1 = Some vv"
      using ensureValidVersions_valid[of E s] Pair by auto
    show ?thesis
      using selectFromBackups_closed[of E s u s1 vv] Pair Inr vv
      by (auto split: option.splits)
  qed
qed

lemma selectFromBackups_versions_frame:
  "validVersions (snd (selectFromBackups E s)) = validVersions (snd (ensureValidVersions E s)) \<and>
   registryQueries (snd (selectFromBackups E s)) = registryQueries (snd (ensureValidVersions E s))"
  using selectFromBackups_after_ensure[of E s] by (auto simp: enterRegressedMode_def)

lemma ensure_backups: "ensureValidVersions E s = (r, s1) \<Longrightarrow> backups s1 = backups s"
  using ensureValidVersions_frame[of E s] by simp

lemma group_truthy:
  assumes "[] \<notin> fst ` set bs" and "k \<in> set (filteredKeys E vv bs)" and "underThreshold E bs k"
  shows "truthy (find (underThreshold E bs) (versionGroup E vv bs (versionOf bs k)))"
proof -
  let ?v = "versionOf bs k"
  have "k \<in> set (versionGroup E vv bs ?v)" using assms(2) by (simp add: versionGroup_iff)
  then have "find (underThreshold E bs) (versionGroup E vv bs ?v) \<noteq> None"
    using assms(3) by (auto simp: find_None_set)
  then obtain e where e: "find (underThreshold E bs) (versionGroup E vv bs ?v) = Some e" by auto
  then have "e \<in> fst ` set bs" using find_Some_set versionGroup_subset by fastforce
  then have "e \<noteq> []" using assms(1) by blast
  then show ?thesis using e by (simp add: truthy_def)
qed

lemma filtered_versions_parse:
  "\<forall>v \<in> set (map (versionOf bs) (filteredKeys E vv bs)). semver_parse E v \<noteq> None"
proof
  fix v assume "v \<in> set (map (versionOf bs) (filteredKeys E vv bs))"
  then obtain k where k: "k \<in> set (filteredKeys E vv bs)" "v = versionOf bs k" by auto
  then obtain b where "map_of bs k = Some b" "isVersionOk E vv (version b)"
    by (auto simp: filteredKeys_iff)
  then show "semver_parse E v \<noteq> None" using k isVersionOk_parses by (simp add: versionOf_def)
qed

lemma firstChoice_newest:
  assumes ne: "[] \<notin> fst ` set bs" and r: "firstChoice E vv bs = Some r"
    and k: "k \<in> set (filteredKeys E vv bs)" and u: "underThreshold E bs k"
  shows "semver_ge E (versionOf bs r) (versionOf bs k)"
proof -
  let ?P = "\<lambda>v. truthy (find (underThreshold E bs) (versionGroup E vv bs v))"
  let ?vs = "js_sort (semver_rcompare E) (map (versionOf bs) (filteredKeys E vv bs))"
  from r obtain v0 where v0: "find ?P ?vs = Some v0"
      and f: "find (underThreshold E bs) (versionGroup E vv bs v0) = Some r"
    by (auto simp: firstChoice_def split: option.splits)
  have "r \<in> set (versionGroup E vv bs v0)" using f find_Some_set by fastforce
  then have rv: "versionOf bs r = v0" by (simp add: versionGroup_iff)
  have srt: "sorted_wrt (semver_ge E) ?vs"
    by (rule sorted_js_sort) (rule filtered_versions_parse)
  have mem: "versionOf bs k \<in> set ?vs" using k by (simp add: set_js_sort)
  have "?P (versionOf bs k)" using ne k u by (rule group_truthy)
  then have "v0 = versionOf bs k \<or> semver_ge E v0 (versionOf bs k)"
    using find_first_sorted[OF srt v0 mem] by simp
  moreover have "semver_ge E (versionOf bs k) (versionOf bs k)"
    by (simp add: semver_ge_def semver_compare_def compareSemVer_refl split: option.splits)
  ultimately show ?thesis using rv by auto
qed

lemma semver_gt_trans:
  "semver_ge E a b \<Longrightarrow> 0 < semver_compare E b c \<Longrightarrow> semver_parse E a \<noteq> None \<Longrightarrow> 0 < semver_compare E a c"
  by (auto simp: semver_ge_def semver_compare_def split: option.splits intro: compareSemVer_strict_trans)

subsection \<open>The verdict of isHealthy\<close>

text \<open>
  For every health response for which the monitoring block does not throw (no monitoring
  callback is configured, or \<^verbatim>\<open>response.config.url\<close> is a URL), \<^verbatim>\<open>isHealthy\<close> returns
  true if and only if the status is 200, the service name is the expected one, the version
  parses, it has the major and minor of the current version, its patch is not lower, the
  block difference does not exceed the threshold and the slot-diff check does not trip. A
  backup is recorded exactly when the four checks before the patch check pass and the
  patch, the block-difference or the slot-diff check fails. Nothing else of the selector
  changes.
\<close>

lemma isHealthy_verdict:
  assumes "healthCheck E = None \<or> url_parse E (config_url r) \<noteq> None"
  shows "fst (isHealthy E s r urlMap) =
     Inr (status r = 200 \<and> service (data r) = DISCOVERY_SERVICE_NAME E \<and>
          semver_valid E (version (data r)) \<and>
          hasSameMajorAndMinorVersion E (currentVersion s) (version (data r)) \<and>
          \<not> patchLower E (version (data r)) (currentVersion s) \<and>
          \<not> UNHEALTHY_BLOCK_DIFF E < block_difference (data r) \<and>
          \<not> slotDiffTrips E (data r)) \<and>
   snd (isHealthy E s r urlMap) =
     (if status r = 200 \<and> service (data r) = DISCOVERY_SERVICE_NAME E \<and>
         semver_valid E (version (data r)) \<and>
         hasSameMajorAndMinorVersion E (currentVersion s) (version (data r)) \<and>
         (patchLower E (version (data r)) (currentVersion s) \<or>
          UNHEALTHY_BLOCK_DIFF E < block_difference (data r) \<or> slotDiffTrips E (data r))
      then s\<lparr>backups := addBackup (canonical urlMap r) (data r) (backups s)\<rparr>
      else s)"
proof -
  have "monitorHealthCheck E r = None" using assms by (rule monitorHealthCheck_None)
  then show ?thesis by (simp only: isHealthy_closed) auto
qed

text \<open>
  With a monitoring callback configured and a probe URL that parses: a
  healthy response; a response one patch behind, a response 16 blocks behind and a
  response whose slot difference of 11 exceeds the threshold of 10, each rejected and
  recorded as a backup; a response with status 500 and a response of another service,
  each rejected and not recorded.
\<close>

lemma isHealthy_verdict_examples:
  "(healthCheck monitored_env = None \<or>
      url_parse monitored_env (config_url (demo_response 200 ''1.2.3'' 15 (Some 10))) \<noteq> None) \<and>
   isHealthy monitored_env (demo_selector []) (demo_response 200 ''1.2.3'' 15 (Some 10)) demo_urlMap =
     (Inr True, demo_selector []) \<and>
   isHealthy monitored_env (demo_selector []) (demo_response 200 ''1.2.2'' 3 None) demo_urlMap =
     (Inr False, demo_selector [(''https://dp1.example'', data (demo_response 200 ''1.2.2'' 3 None))]) \<and>
   isHealthy monitored_env (demo_selector []) (demo_response 200 ''1.2.3'' 16 None) demo_urlMap =
     (Inr False, demo_selector [(''https://dp1.example'', data (demo_response 200 ''1.2.3'' 16 None))]) \<and>
   slotDiffTrips monitored_env (data (demo_response 200 ''1.2.3'' 3 (Some 11))) \<and>
   isHealthy monitored_env (demo_selector []) (demo_response 200 ''1.2.3'' 3 (Some 11)) demo_urlMap =
     (Inr False, demo_selector [(''https://dp1.example'', data (demo_response 200 ''1.2.3'' 3 (Some 11)))]) \<and>
   isHealthy monitored_env (demo_selector []) (demo_response 500 ''1.2.2'' 3 (Some 11)) demo_urlMap =
     (Inr False, demo_selector []) \<and>
   isHealthy monitored_env (demo_selector [])
       ((demo_response 200 ''1.2.2'' 3 None)\<lparr>data := (demo_backup ''1.2.2'' 3)\<lparr>service := ''content-node''\<rparr>\<rparr>)
       demo_urlMap =
     (Inr False, demo_selector [])"
proof -
  have u: "healthCheck monitored_env = None \<or>
      url_parse monitored_env (config_url (demo_response st v d sd)) \<noteq> None" for st v d sd
    by (simp add: monitored_env_def demo_env_def demo_response_def demo_url_parse_def)
  have u': "healthCheck monitored_env = None \<or>
      url_parse monitored_env (config_url ((demo_response 200 ''1.2.2'' 3 None)
        \<lparr>data := (demo_backup ''1.2.2'' 3)\<lparr>service := ''content-node''\<rparr>\<rparr>)) \<noteq> None"
    by (simp add: monitored_env_def demo_env_def demo_response_def demo_url_parse_def)
  show ?thesis
    using isHealthy_verdict[OF u[of 200 "''1.2.3''" 15 "Some 10"], where s = "demo_selector []" and urlMap = demo_urlMap]
      isHealthy_verdict[OF u[of 200 "''1.2.2''" 3 None], where s = "demo_selector []" and urlMap = demo_urlMap]
      isHealthy_verdict[OF u[of 200 "''1.2.3''" 16 None], where s = "demo_selector []" and urlMap = demo_urlMap]
      isHealthy_verdict[OF u[of 200 "''1.2.3''" 3 "Some 11"], where s = "demo_selector []" and urlMap = demo_urlMap]
      isHealthy_verdict[OF u[of 500 "''1.2.2''" 3 "Some 11"], where s = "demo_selector []" and urlMap = demo_urlMap]
      isHealthy_verdict[OF u', where s = "demo_selector []" and urlMap = demo_urlMap]
    by (simp add: prod_eq_iff monitored_env_def demo_env_def demo_selector_def demo_response_def
        demo_urlMap_def demo_parse_def demo_url_parse_def demo_backup_def semver_valid_def
        hasSameMajorAndMinorVersion_def patchLower_def slotDiffTrips_def canonical_def)
qed

subsection \<open>Newest version first\<close>

text \<open>
  When no endpoint key is the empty string and the valid versions are there, of two
  filtered backups of different versions, both under the threshold, the one of the lower
  version is not returned: the method returns, without entering regressed mode, a filtered
  backup \<open>r\<close> under the threshold whose version is at least as new as that of every
  filtered backup under the threshold, and \<open>r\<close> is the first endpoint under the
  threshold in the group of its version; when the two backups are all there is, the newer
  one is returned.
\<close>

lemma newest_version_first:
  assumes "ensureValidVersions E s = (Inr (), s1)" and "validVersions s1 = Some vv"
    and "[] \<notin> set (map fst (backups s))"
    and "map_of (backups s) ka = Some a" and "isVersionOk E vv (version a)"
    and "block_difference a < UNHEALTHY_BLOCK_DIFF E"
    and "map_of (backups s) kb = Some b" and "isVersionOk E vv (version b)"
    and "block_difference b < UNHEALTHY_BLOCK_DIFF E"
    and "0 < semver_compare E (version a) (version b)"
  shows "\<exists>r rb. selectFromBackups E s = (Inr (Some r), s1) \<and>
           map_of (backups s) r = Some rb \<and> r \<noteq> kb \<and>
           isVersionOk E vv (version rb) \<and> block_difference rb < UNHEALTHY_BLOCK_DIFF E \<and>
           (\<forall>k \<in> set (filteredKeys E vv (backups s)).
              underThreshold E (backups s) k \<longrightarrow> semver_ge E (version rb) (versionOf (backups s) k)) \<and>
           find (underThreshold E (backups s)) (versionGroup E vv (backups s) (version rb)) = Some r \<and>
           (set (map fst (backups s)) = {ka, kb} \<longrightarrow> r = ka)"
proof -
  let ?bs = "backups s"
  have bs: "backups s1 = ?bs" using assms(1) by (rule ensure_backups)
  have ne: "[] \<notin> fst ` set ?bs" using assms(3) by simp
  note closed = selectFromBackups_closed[OF assms(1,2), unfolded bs]
  have ka: "ka \<in> set (filteredKeys E vv ?bs)" "underThreshold E ?bs ka" "versionOf ?bs ka = version a"
    using assms(4,5,6) by (auto simp: filteredKeys_iff underThreshold_def versionOf_def)
  then have "firstChoice E vv ?bs \<noteq> None"
    using firstChoice_None_iff[OF ne, of E vv] by auto
  then obtain r where r: "firstChoice E vv ?bs = Some r" by auto
  then have rF: "r \<in> set (filteredKeys E vv ?bs)" and ru: "underThreshold E ?bs r"
    and rf: "find (underThreshold E ?bs) (versionGroup E vv ?bs (versionOf ?bs r)) = Some r"
    using firstChoice_Some by blast+
  from rF obtain rb where rb: "map_of ?bs r = Some rb" "isVersionOk E vv (version rb)"
    by (auto simp: filteredKeys_iff)
  then have rv: "versionOf ?bs r = version rb" by (simp add: versionOf_def)
  have rl: "block_difference rb < UNHEALTHY_BLOCK_DIFF E"
    using ru rb by (simp add: underThreshold_def)
  have newest: "\<forall>k \<in> set (filteredKeys E vv ?bs).
      underThreshold E ?bs k \<longrightarrow> semver_ge E (version rb) (versionOf ?bs k)"
    using firstChoice_newest[OF ne r] rv by auto
  have "semver_ge E (version rb) (version a)" using newest ka by auto
  then have gt: "0 < semver_compare E (version rb) (version b)"
    using assms(10) rb(2) isVersionOk_parses by (auto intro: semver_gt_trans)
  have nkb: "r \<noteq> kb"
  proof
    assume "r = kb"
    then have "rb = b" using rb(1) assms(7) by simp
    then show False using gt
      by (simp add: semver_compare_def compareSemVer_refl split: option.splits)
  qed
  have two: "set (map fst ?bs) = {ka, kb} \<longrightarrow> r = ka"
    using rF nkb by (auto simp: filteredKeys_def)
  have "selectFromBackups E s = (Inr (Some r), s1)" using closed r by simp
  then show ?thesis using rb rl nkb newest rf rv two by auto
qed

text \<open>
  For instance, 1.2.2 before 1.1.9, and 1.2.2 before its own prerelease 1.2.2-rc1, whatever
  the order of the keys.
\<close>

lemma newest_version_first_examples:
  "ensureValidVersions demo_env (demo_selector demo_two_versions) = (Inr (), demo_ready demo_two_versions) \<and>
   0 < semver_compare demo_env (version (demo_backup ''1.2.2'' 4)) (version (demo_backup ''1.1.9'' 3)) \<and>
   selectFromBackups demo_env (demo_selector demo_two_versions) =
     (Inr (Some ''https://dp2.example''), demo_ready demo_two_versions) \<and>
   0 < semver_compare demo_env (version (demo_backup ''1.2.2'' 4)) (version (demo_backup ''1.2.2-rc1'' 3)) \<and>
   selectFromBackups demo_env (demo_selector demo_prerelease) =
     (Inr (Some ''https://dp2.example''), demo_ready demo_prerelease)"
proof -
  let ?vv = "[''1.2.3'', ''1.1.9'', ''1.0.0'']"
  have h1: "ensureValidVersions demo_env (demo_selector demo_two_versions) = (Inr (), demo_ready demo_two_versions)"
    by code_simp
  have h2: "validVersions (demo_ready demo_two_versions) = Some ?vv" by code_simp
  have h3: "[] \<notin> set (map fst (backups (demo_selector demo_two_versions)))" by code_simp
  have h4: "map_of (backups (demo_selector demo_two_versions)) ''https://dp2.example'' = Some (demo_backup ''1.2.2'' 4)"
    by code_simp
  have h5: "isVersionOk demo_env ?vv (version (demo_backup ''1.2.2'' 4))" by code_simp
  have h6: "block_difference (demo_backup ''1.2.2'' 4) < UNHEALTHY_BLOCK_DIFF demo_env" by code_simp
  have h7: "map_of (backups (demo_selector demo_two_versions)) ''https://dp1.example'' = Some (demo_backup ''1.1.9'' 3)"
    by code_simp
  have h8: "isVersionOk demo_env ?vv (version (demo_backup ''1.1.9'' 3))" by code_simp
  have h9: "block_difference (demo_backup ''1.1.9'' 3) < UNHEALTHY_BLOCK_DIFF demo_env" by code_simp
  have h10: "0 < semver_compare demo_env (version (demo_backup ''1.2.2'' 4)) (version (demo_backup ''1.1.9'' 3))"
    by code_simp
  have k: "set (map fst (backups (demo_selector demo_two_versions))) = {''https://dp2.example'', ''https://dp1.example''}"
    by (auto simp: demo_selector_def demo_two_versions_def)
  from newest_version_first[OF h1 h2 h3 h4 h5 h6 h7 h8 h9 h10] k
  have a: "selectFromBackups demo_env (demo_selector demo_two_versions) =
     (Inr (Some ''https://dp2.example''), demo_ready demo_two_versions)"
    by auto
  have p1: "ensureValidVersions demo_env (demo_selector demo_prerelease) = (Inr (), demo_ready demo_prerelease)"
    by code_simp
  have p2: "validVersions (demo_ready demo_prerelease) = Some ?vv" by code_simp
  have p3: "[] \<notin> set (map fst (backups (demo_selector demo_prerelease)))" by code_simp
  have p4: "map_of (backups (demo_selector demo_prerelease)) ''https://dp2.example'' = Some (demo_backup ''1.2.2'' 4)"
    by code_simp
  have p7: "map_of (backups (demo_selector demo_prerelease)) ''https://dp1.example'' = Some (demo_backup ''1.2.2-rc1'' 3)"
    by code_simp
  have p8: "isVersionOk demo_env ?vv (version (demo_backup ''1.2.2-rc1'' 3))" by code_simp
  have p9: "block_difference (demo_backup ''1.2.2-rc1'' 3) < UNHEALTHY_BLOCK_DIFF demo_env" by code_simp
  have p10: "0 < semver_compare demo_env (version (demo_backup ''1.2.2'' 4)) (version (demo_backup ''1.2.2-rc1'' 3))"
    by code_simp
  have pk: "set (map fst (backups (demo_selector demo_prerelease))) = {''https://dp2.example'', ''https://dp1.example''}"
    by (auto simp: demo_selector_def demo_prerelease_def)
  from newest_version_first[OF p1 p2 p3 p4 h5 h6 p7 p8 p9 p10] pk
  have b: "selectFromBackups demo_env (demo_selector demo_prerelease) =
     (Inr (Some ''https://dp2.example''), demo_ready demo_prerelease)"
    by auto
  show ?thesis using h1 h10 a p10 b by simp
qed

section \<open>The claims\<close>

subsection \<open>Selection from the backups\<close>

text \<open>
  C1, as stated: whenever a backup passes the valid-version filter the method returns a
  candidate, and every candidate it returns sets \<^verbatim>\<open>regressedMode\<close> to true, also when
  the version-grouped step under the threshold selects it. The second half fails: one
  backup of version 1.2.2, three blocks behind, is returned by the version-grouped step and
  \<^verbatim>\<open>regressedMode\<close> stays false.
\<close>

theorem regressed_on_every_selection_counterexample:
  "filteredKeys demo_env [''1.2.3'', ''1.1.9'', ''1.0.0''] demo_fresh \<noteq> [] \<and>
   fst (selectFromBackups demo_env (demo_selector demo_fresh)) = Inr (Some ''https://dp1.example'') \<and>
   \<not> regressedMode (snd (selectFromBackups demo_env (demo_selector demo_fresh)))"
  by code_simp

text \<open>
  C1, amended: when the valid versions are there (cached, or built without a registry
  error), no endpoint key is the empty string and at least one backup passes the
  valid-version filter, the method returns one of the backups that pass the filter. It
  enters regressed mode exactly when no such backup has a block difference under the
  threshold, which is when the last-resort step selects; a selection of the
  version-grouped step leaves the selector as it is.
\<close>

theorem regressed_on_last_resort_only:
  assumes "ensureValidVersions E s = (Inr (), s1)" and "validVersions s1 = Some vv"
    and "[] \<notin> set (map fst (backups s))" and "filteredKeys E vv (backups s) \<noteq> []"
  shows "\<exists>e \<in> set (filteredKeys E vv (backups s)).
           selectFromBackups E s =
             (Inr (Some e),
              if list_ex (underThreshold E (backups s)) (filteredKeys E vv (backups s)) then s1
              else enterRegressedMode E s1)"
proof -
  have bs: "backups s1 = backups s" using assms(1) by (rule ensure_backups)
  have ne: "[] \<notin> fst ` set (backups s)" using assms(3) by simp
  note closed = selectFromBackups_closed[OF assms(1,2), unfolded bs]
  show ?thesis
  proof (cases "firstChoice E vv (backups s)")
    case None
    then have "\<forall>k \<in> set (filteredKeys E vv (backups s)). \<not> underThreshold E (backups s) k"
      using firstChoice_None_iff[OF ne] by simp
    then have nl: "\<not> list_ex (underThreshold E (backups s)) (filteredKeys E vv (backups s))"
      by (simp add: list_ex_iff)
    obtain e where "lastResort E vv (backups s) = Some e" "e \<in> set (filteredKeys E vv (backups s))"
      using lastResort_Some[OF assms(4)] by auto
    then show ?thesis using closed None nl by auto
  next
    case (Some e)
    then have "e \<in> set (filteredKeys E vv (backups s))" "underThreshold E (backups s) e"
      using firstChoice_Some by blast+
    then have "list_ex (underThreshold E (backups s)) (filteredKeys E vv (backups s))"
      by (auto simp: list_ex_iff)
    then show ?thesis using closed Some \<open>e \<in> set (filteredKeys E vv (backups s))\<close> by auto
  qed
qed

theorem regressed_on_last_resort_only_witness:
  "ensureValidVersions demo_env (demo_selector demo_lagging) = (Inr (), demo_ready demo_lagging) \<and>
   validVersions (demo_ready demo_lagging) = Some [''1.2.3'', ''1.1.9'', ''1.0.0''] \<and>
   [] \<notin> set (map fst (backups (demo_selector demo_lagging))) \<and>
   filteredKeys demo_env [''1.2.3'', ''1.1.9'', ''1.0.0''] (backups (demo_selector demo_lagging)) \<noteq> [] \<and>
   selectFromBackups demo_env (demo_selector demo_lagging) =
     (Inr (Some ''https://dp1.example''), enterRegressedMode demo_env (demo_ready demo_lagging))"
proof -
  have h1: "ensureValidVersions demo_env (demo_selector demo_lagging) = (Inr (), demo_ready demo_lagging)"
    by code_simp
  have h2: "validVersions (demo_ready demo_lagging) = Some [''1.2.3'', ''1.1.9'', ''1.0.0'']"
    by code_simp
  have h3: "[] \<notin> set (map fst (backups (demo_selector demo_lagging)))"
    by code_simp
  have h4: "filteredKeys demo_env [''1.2.3'', ''1.1.9'', ''1.0.0''] (backups (demo_selector demo_lagging)) \<noteq> []"
    by code_simp
  have c: "selectFromBackups demo_env (demo_selector demo_lagging) =
     (Inr (Some ''https://dp1.example''), enterRegressedMode demo_env (demo_ready demo_lagging))"
    by code_simp
  show ?thesis
    using regressed_on_last_resort_only[OF h1 h2 h3 h4] h1 h2 h3 h4 c by blast
qed

text \<open>
  C2: with no backup that passes the valid-version filter, \<^verbatim>\<open>selectFromBackups\<close>
  returns \<^verbatim>\<open>null\<close> without raising an error and leaves \<^verbatim>\<open>regressedMode\<close> as it is.
  On the empty backups map the method throws a \<^verbatim>\<open>TypeError\<close> instead
  (\<^verbatim>\<open>blockDiffMap[undefined][0]\<close>); \<^verbatim>\<open>regressedMode\<close> is unchanged.
\<close>

theorem selectFromBackups_empty_throws:
  "fst (selectFromBackups demo_env (demo_selector [])) = Inl TypeError \<and>
   regressedMode (snd (selectFromBackups demo_env (demo_selector []))) = regressedMode (demo_selector [])"
  by code_simp

text \<open>
  C3: when no filtered backup is under the threshold, the backup returned has the
  numerically smallest block difference. With two backups of the valid version 1.2.2,
  100 and 20 blocks behind, both passing the filter and neither under the threshold of 15,
  the method returns the one 100 blocks behind: \<^verbatim>\<open>sort()\<close> orders the block
  differences as strings, and \<^verbatim>\<open>"100"\<close> comes before \<^verbatim>\<open>"20"\<close>.
\<close>

theorem selectFromBackups_best_block_diff_lexicographic:
  "filteredKeys demo_env [''1.2.3'', ''1.1.9'', ''1.0.0''] demo_lagging =
     [''https://dp1.example'', ''https://dp2.example''] \<and>
   map (blockDiffOf demo_lagging) [''https://dp1.example'', ''https://dp2.example''] = [100, 20] \<and>
   js_sort default_compare [100, 20] = [100, 20] \<and>
   fst (selectFromBackups demo_env (demo_selector demo_lagging)) = Inr (Some ''https://dp1.example'')"
  by code_simp

text \<open>
  C7: a candidate that \<^verbatim>\<open>selectFromBackups\<close> returns is a backup whose version has the
  major and minor of some entry of the valid versions, the list the selector holds after
  the call; a backup of any other major.minor is never returned, on either path and
  however small its block difference.
\<close>

theorem selected_backup_has_valid_generation:
  assumes "fst (selectFromBackups E s) = Inr (Some e)"
  shows "\<exists>b vv. map_of (backups s) e = Some b \<and>
           validVersions (snd (selectFromBackups E s)) = Some vv \<and>
           (\<exists>v \<in> set vv. hasSameMajorAndMinorVersion E v (version b))"
proof -
  obtain r s1 where ens: "ensureValidVersions E s = (r, s1)" by (cases "ensureValidVersions E s")
  have "\<exists>u. r = Inr u"
    using assms ens by (cases r) (auto simp: selectFromBackups_def)
  then have ens': "ensureValidVersions E s = (Inr (), s1)" using ens by auto
  obtain vv where vv: "validVersions s1 = Some vv"
    using ensureValidVersions_valid[of E s] ens by auto
  have bs: "backups s1 = backups s" using ens by (rule ensure_backups)
  note closed = selectFromBackups_closed[OF ens' vv, unfolded bs]
  have "e \<in> set (filteredKeys E vv (backups s))"
    using assms closed firstChoice_Some[of E vv "backups s"] lastResort_set[of E vv "backups s"]
    by (auto split: option.splits)
  then obtain b where b: "map_of (backups s) e = Some b" "isVersionOk E vv (version b)"
    by (auto simp: filteredKeys_iff)
  have "validVersions (snd (selectFromBackups E s)) = Some vv"
    using selectFromBackups_versions_frame[of E s] ens vv by simp
  then show ?thesis using b by (auto simp: isVersionOk_iff)
qed

theorem selected_backup_has_valid_generation_witness:
  "fst (selectFromBackups demo_env (demo_selector demo_unregistered)) = Inr (Some ''https://dp2.example'') \<and>
   map_of (backups (demo_selector demo_unregistered)) ''https://dp2.example'' = Some (demo_backup ''1.1.9'' 500) \<and>
   hasSameMajorAndMinorVersion demo_env ''1.1.9'' (version (demo_backup ''1.1.9'' 500)) \<and>
   \<not> list_ex (\<lambda>v. hasSameMajorAndMinorVersion demo_env v ''2.0.0'') [''1.2.3'', ''1.1.9'', ''1.0.0'']"
proof -
  have h: "fst (selectFromBackups demo_env (demo_selector demo_unregistered)) = Inr (Some ''https://dp2.example'')"
    by code_simp
  have c: "map_of (backups (demo_selector demo_unregistered)) ''https://dp2.example'' = Some (demo_backup ''1.1.9'' 500) \<and>
   hasSameMajorAndMinorVersion demo_env ''1.1.9'' (version (demo_backup ''1.1.9'' 500)) \<and>
   \<not> list_ex (\<lambda>v. hasSameMajorAndMinorVersion demo_env v ''2.0.0'') [''1.2.3'', ''1.1.9'', ''1.0.0'']"
    by code_simp
  show ?thesis
    using selected_backup_has_valid_generation[OF h] h c by blast
qed


text \<open>
  C9: the valid versions are built by the first call of \<^verbatim>\<open>selectFromBackups\<close> and by
  no later one. While the field is unset and the registry answers, the call asks for the
  number of versions \<open>n\<close> once and for the versions at \<open>n - 2\<close>, \<open>n - 3\<close>, ...,
  \<open>min 5 (n - 1)\<close> of them, and leaves the current version followed by the answers in
  the field. Once the field is set, a call leaves it as it is and sends the registry no
  query.
\<close>

theorem validVersions_built_once:
  "(validVersions s = None \<and> getNumberOfVersions E = Inr n \<and>
    (\<forall>j \<in> set [0..min PREVIOUS_VERSIONS_TO_CHECK (n - 1) - 1].
       getVersion E (n - 2 - j) = Inr (reg (n - 2 - j)))
    \<longrightarrow> validVersions (snd (selectFromBackups E s)) =
          Some (currentVersion s # map (\<lambda>j. reg (n - 2 - j)) [0..min PREVIOUS_VERSIONS_TO_CHECK (n - 1) - 1]) \<and>
        registryQueries (snd (selectFromBackups E s)) =
          registryQueries s @ QueryNumberOfVersions #
            map (\<lambda>j. QueryVersion (n - 2 - j)) [0..min PREVIOUS_VERSIONS_TO_CHECK (n - 1) - 1] \<and>
        length [0..min PREVIOUS_VERSIONS_TO_CHECK (n - 1) - 1] = nat (min 5 (n - 1))) \<and>
   (validVersions s = Some vv
    \<longrightarrow> validVersions (snd (selectFromBackups E s)) = Some vv \<and>
        registryQueries (snd (selectFromBackups E s)) = registryQueries s)"
proof (intro conjI impI)
  assume a: "validVersions s = None \<and> getNumberOfVersions E = Inr n \<and>
    (\<forall>j \<in> set [0..min PREVIOUS_VERSIONS_TO_CHECK (n - 1) - 1].
       getVersion E (n - 2 - j) = Inr (reg (n - 2 - j)))"
  let ?s0 = "s\<lparr>validVersions := Some [currentVersion s],
               registryQueries := registryQueries s @ [QueryNumberOfVersions]\<rparr>"
  have f: "fetchPastVersions E n 0 ?s0 =
     (Inr (), ?s0\<lparr>validVersions :=
                  map_option (\<lambda>acc. acc @ map (\<lambda>j. reg (n - 2 - j)) [0..min PREVIOUS_VERSIONS_TO_CHECK (n - 1) - 1])
                    (validVersions ?s0),
                registryQueries := registryQueries ?s0 @
                  map (\<lambda>j. QueryVersion (n - 2 - j)) [0..min PREVIOUS_VERSIONS_TO_CHECK (n - 1) - 1]\<rparr>)"
    using a by (intro fetchPastVersions_closed) simp_all
  have e: "snd (ensureValidVersions E s) =
     ?s0\<lparr>validVersions :=
                  map_option (\<lambda>acc. acc @ map (\<lambda>j. reg (n - 2 - j)) [0..min PREVIOUS_VERSIONS_TO_CHECK (n - 1) - 1])
                    (validVersions ?s0),
                registryQueries := registryQueries ?s0 @
                  map (\<lambda>j. QueryVersion (n - 2 - j)) [0..min PREVIOUS_VERSIONS_TO_CHECK (n - 1) - 1]\<rparr>"
    using a f by (simp add: ensureValidVersions_def Let_def)
  show "validVersions (snd (selectFromBackups E s)) =
          Some (currentVersion s # map (\<lambda>j. reg (n - 2 - j)) [0..min PREVIOUS_VERSIONS_TO_CHECK (n - 1) - 1])"
    using selectFromBackups_versions_frame[of E s] e by simp
  show "registryQueries (snd (selectFromBackups E s)) =
          registryQueries s @ QueryNumberOfVersions #
            map (\<lambda>j. QueryVersion (n - 2 - j)) [0..min PREVIOUS_VERSIONS_TO_CHECK (n - 1) - 1]"
    using selectFromBackups_versions_frame[of E s] e by simp
  show "length [0..min PREVIOUS_VERSIONS_TO_CHECK (n - 1) - 1] = nat (min 5 (n - 1))"
    by (simp add: PREVIOUS_VERSIONS_TO_CHECK_def)
next
  assume "validVersions s = Some vv"
  then have "ensureValidVersions E s = (Inr (), s)" by (rule ensureValidVersions_cached)
  then show "validVersions (snd (selectFromBackups E s)) = Some vv"
    and "registryQueries (snd (selectFromBackups E s)) = registryQueries s"
    using selectFromBackups_versions_frame[of E s] \<open>validVersions s = Some vv\<close> by simp_all
qed

theorem validVersions_built_once_witness:
  "validVersions (demo_selector demo_fresh) = None \<and> getNumberOfVersions demo_env = Inr 3 \<and>
   validVersions (snd (selectFromBackups demo_env (demo_selector demo_fresh))) =
     Some [''1.2.3'', ''1.1.9'', ''1.0.0''] \<and>
   registryQueries (snd (selectFromBackups demo_env (demo_selector demo_fresh))) =
     [QueryNumberOfVersions, QueryVersion 1, QueryVersion 0] \<and>
   registryQueries (snd (selectFromBackups demo_env (demo_ready demo_fresh))) =
     [QueryNumberOfVersions, QueryVersion 1, QueryVersion 0]"
proof -
  have u: "[0..min PREVIOUS_VERSIONS_TO_CHECK (3 - 1) - 1] = [0, 1]"
    by (simp add: PREVIOUS_VERSIONS_TO_CHECK_def upto.simps)
  have u2: "[0..min PREVIOUS_VERSIONS_TO_CHECK 2 - 1] = [0, 1]"
    by (simp add: PREVIOUS_VERSIONS_TO_CHECK_def upto.simps)
  have h1: "validVersions (demo_selector demo_fresh) = None" by (simp add: demo_selector_def)
  have h2: "getNumberOfVersions demo_env = Inr 3" by (simp add: demo_env_def)
  have h3: "\<forall>j \<in> set [0..min PREVIOUS_VERSIONS_TO_CHECK (3 - 1) - 1].
       getVersion demo_env (3 - 2 - j) = Inr (demo_past (3 - 2 - j))"
    unfolding u by (simp add: demo_env_def demo_registry_def demo_past_def)
  have h4: "validVersions (demo_ready demo_fresh) = Some [''1.2.3'', ''1.1.9'', ''1.0.0'']"
    by (simp add: demo_ready_def)
  have c: "currentVersion (demo_selector demo_fresh) = ''1.2.3''"
    "registryQueries (demo_selector demo_fresh) = []"
    "registryQueries (demo_ready demo_fresh) = [QueryNumberOfVersions, QueryVersion 1, QueryVersion 0]"
    by (simp_all add: demo_selector_def demo_ready_def)
  show ?thesis
    using validVersions_built_once[of "demo_selector demo_fresh" demo_env 3 demo_past "[]"]
      validVersions_built_once[of "demo_ready demo_fresh" demo_env 3 demo_past "[''1.2.3'', ''1.1.9'', ''1.0.0'']"]
      h1 h2 h3 h4
    by (simp add: u2 c demo_past_def)
qed

subsection \<open>Regressed-mode timers\<close>

text \<open>
  C4, as stated: at most one expiry timer is pending at any time, a second call to
  \<^verbatim>\<open>enterRegressedMode\<close> replaces the pending timer, and \<^verbatim>\<open>regressedMode\<close> returns to
  false at the time of the last call plus the timeout and not earlier. It fails: after a
  call at time 0 and a call at time 5, with a timeout of 120, two timers are pending; the
  last call plus the timeout is 125, and \<^verbatim>\<open>regressedMode\<close>, still true at 119, is false
  at 120, when the timer of the first call fires.
\<close>

theorem enterRegressedMode_single_timer_counterexample:
  "length (timers twice_regressed) = 2 \<and>
   clock twice_regressed + REGRESSED_MODE_TIMEOUT demo_env = 125 \<and>
   regressedMode (runTimers 119 twice_regressed) \<and>
   \<not> regressedMode (runTimers 120 twice_regressed)"
  by (simp add: twice_regressed_def enterRegressedMode_def runTimers_def demo_env_def demo_selector_def)

text \<open>
  C4, amended: every call to \<^verbatim>\<open>enterRegressedMode\<close> sets \<^verbatim>\<open>regressedMode\<close> to true
  and adds one pending expiry timer, due at the time of the call plus the timeout, keeping
  the timers that are already pending; after the call \<^verbatim>\<open>regressedMode\<close> is still true at
  time \<open>t\<close> exactly when no pending timer, old or new, is due by \<open>t\<close>.
\<close>

theorem enterRegressedMode_stacks_timers:
  "regressedMode (enterRegressedMode E s) \<and>
   timers (enterRegressedMode E s) = timers s @ [clock s + REGRESSED_MODE_TIMEOUT E] \<and>
   (regressedMode (runTimers t (enterRegressedMode E s)) \<longleftrightarrow>
      (\<forall>d \<in> set (timers s @ [clock s + REGRESSED_MODE_TIMEOUT E]). t < d))"
proof -
  have "(\<exists>d \<in> set (timers s @ [clock s + REGRESSED_MODE_TIMEOUT E]). d \<le> t) \<longleftrightarrow>
        \<not> (\<forall>d \<in> set (timers s @ [clock s + REGRESSED_MODE_TIMEOUT E]). t < d)"
    by (meson linorder_not_less)
  then show ?thesis
    by (simp add: enterRegressedMode_def runTimers_def)
qed

theorem enterRegressedMode_stacks_timers_witness:
  "timers twice_regressed = [120, 125] \<and>
   regressedMode (runTimers 119 twice_regressed) \<and>
   \<not> regressedMode (runTimers 120 twice_regressed)"
proof -
  let ?s = "runTimers 5 (enterRegressedMode demo_env (demo_selector []))"
  have t: "timers ?s = [120]" "clock ?s = 5" "REGRESSED_MODE_TIMEOUT demo_env = 120"
    by (simp_all add: enterRegressedMode_def runTimers_def demo_env_def demo_selector_def)
  show ?thesis
    using enterRegressedMode_stacks_timers[of demo_env ?s 119]
      enterRegressedMode_stacks_timers[of demo_env ?s 120]
    unfolding twice_regressed_def t by simp
qed

subsection \<open>Callbacks that throw\<close>

text \<open>
  C5: an exception of the selection callback or of the monitoring callback is caught, and
  \<^verbatim>\<open>select\<close> and \<^verbatim>\<open>isHealthy\<close> return what they return with a callback that does not
  throw. \<^verbatim>\<open>isHealthy\<close> does so (\<open>isHealthy_swallows_callback\<close> above: its
  \<^verbatim>\<open>try\<close>/\<^verbatim>\<open>catch\<close> around the call). \<^verbatim>\<open>select\<close> does not: with a selection callback that throws, the
  call ends with the callback's exception, where without a callback it returns the
  endpoint the base selector chose.
\<close>

theorem select_callback_exception_propagates:
  "fst (select throwing_env demo_super_select (demo_selector [])) = Inl (Thrown ''callback failed'') \<and>
   fst (select demo_env demo_super_select (demo_selector [])) = Inr (Some ''https://dp1.example'')"
  by (simp add: select_def throwing_env_def demo_env_def demo_super_select_def)

subsection \<open>Health classification\<close>

text \<open>
  C6: for every health response \<^verbatim>\<open>isHealthy\<close> returns true if and only if the seven
  checks pass, in their order, and records a backup exactly when the first check that fails
  is the patch, the block-difference or the slot-diff check. Where a monitoring callback is
  configured and \<^verbatim>\<open>response.config.url\<close> is not a URL, the method returns nothing:
  \<^verbatim>\<open>new URL(...)\<close> stands before the \<^verbatim>\<open>try\<close> whose handler is there so that the method
  does not throw, and throws. The response below passes all seven checks and \<^verbatim>\<open>isHealthy\<close>
  ends with a \<^verbatim>\<open>TypeError\<close>; with the URL the probe is normally sent to, the same payload
  is healthy. Wherever the monitoring block does not throw, the verdict and the backup are
  as the claim says (\<open>isHealthy_verdict\<close> above).
\<close>

theorem isHealthy_throws_on_unparseable_url:
  "status demo_schemeless = 200 \<and>
   service (data demo_schemeless) = DISCOVERY_SERVICE_NAME monitored_env \<and>
   semver_valid monitored_env (version (data demo_schemeless)) \<and>
   hasSameMajorAndMinorVersion monitored_env (currentVersion (demo_selector [])) (version (data demo_schemeless)) \<and>
   \<not> patchLower monitored_env (version (data demo_schemeless)) (currentVersion (demo_selector [])) \<and>
   \<not> UNHEALTHY_BLOCK_DIFF monitored_env < block_difference (data demo_schemeless) \<and>
   \<not> slotDiffTrips monitored_env (data demo_schemeless) \<and>
   url_parse monitored_env (config_url demo_schemeless) = None \<and>
   fst (isHealthy monitored_env (demo_selector []) demo_schemeless demo_urlMap) = Inl TypeError \<and>
   fst (isHealthy monitored_env (demo_selector []) (demo_response 200 ''1.2.3'' 3 None) demo_urlMap) = Inr True"
  by code_simp

subsection \<open>The threshold at its boundary\<close>

text \<open>
  C10, as stated: a response that passes the checks before the block-difference check and
  whose block difference equals the threshold is classified healthy. It fails when the
  slot-diff check, which comes after, trips: status 200, the current version, 15 blocks
  behind with a threshold of 15, a slot difference of 11 with a slot-diff threshold of 10.
\<close>

theorem threshold_boundary_healthy_counterexample:
  "block_difference (data (demo_response 200 ''1.2.3'' 15 (Some 11))) = UNHEALTHY_BLOCK_DIFF demo_env \<and>
   fst (isHealthy demo_env (demo_selector []) (demo_response 200 ''1.2.3'' 15 (Some 11)) demo_urlMap) = Inr False"
  by code_simp

text \<open>
  C10, amended: a response that passes everything before the block-difference check (the
  monitoring block, where a callback is configured, has its URL, and the five checks pass)
  and whose block difference equals the threshold is not rejected by that check (rejection
  needs strictly more), so it is classified healthy exactly when the slot-diff check does
  not trip; and a backup whose block difference equals the threshold is never the one the
  version-grouped step returns, which needs strictly less.
\<close>

theorem threshold_inclusive_then_exclusive:
  "((healthCheck E = None \<or> url_parse E (config_url r) \<noteq> None) \<and>
    status r = 200 \<and> service (data r) = DISCOVERY_SERVICE_NAME E \<and>
    semver_valid E (version (data r)) \<and>
    hasSameMajorAndMinorVersion E (currentVersion s) (version (data r)) \<and>
    \<not> patchLower E (version (data r)) (currentVersion s) \<and>
    block_difference (data r) = UNHEALTHY_BLOCK_DIFF E
    \<longrightarrow> fst (isHealthy E s r urlMap) = Inr (\<not> slotDiffTrips E (data r))) \<and>
   (map_of bs e = Some b \<and> block_difference b = UNHEALTHY_BLOCK_DIFF E
    \<longrightarrow> walkVersions E bs vm vs None \<noteq> Inr (Some e))"
proof (intro conjI impI)
  assume "(healthCheck E = None \<or> url_parse E (config_url r) \<noteq> None) \<and>
    status r = 200 \<and> service (data r) = DISCOVERY_SERVICE_NAME E \<and>
    semver_valid E (version (data r)) \<and>
    hasSameMajorAndMinorVersion E (currentVersion s) (version (data r)) \<and>
    \<not> patchLower E (version (data r)) (currentVersion s) \<and>
    block_difference (data r) = UNHEALTHY_BLOCK_DIFF E"
  then show "fst (isHealthy E s r urlMap) = Inr (\<not> slotDiffTrips E (data r))"
    by (simp add: isHealthy_closed monitorHealthCheck_None)
next
  assume a: "map_of bs e = Some b \<and> block_difference b = UNHEALTHY_BLOCK_DIFF E"
  show "walkVersions E bs vm vs None \<noteq> Inr (Some e)"
  proof
    assume "walkVersions E bs vm vs None = Inr (Some e)"
    then have "underThreshold E bs e"
      by (rule walkVersions_under) (simp add: truthy_def)
    then show False using a by (simp add: underThreshold_def)
  qed
qed

theorem threshold_inclusive_then_exclusive_witness:
  "fst (isHealthy demo_env (demo_selector []) (demo_response 200 ''1.2.3'' 15 (Some 10)) demo_urlMap) = Inr True \<and>
   map_of demo_at_threshold ''https://dp1.example'' = Some (demo_backup ''1.2.2'' 15) \<and>
   block_difference (demo_backup ''1.2.2'' 15) = UNHEALTHY_BLOCK_DIFF demo_env \<and>
   walkVersions demo_env demo_at_threshold [''1.2.2'' \<mapsto> [''https://dp1.example'']] [''1.2.2''] None
     \<noteq> Inr (Some ''https://dp1.example'')"
  using threshold_inclusive_then_exclusive[where r = "demo_response 200 ''1.2.3'' 15 (Some 10)"
      and E = demo_env and s = "demo_selector []" and urlMap = demo_urlMap
      and bs = demo_at_threshold and e = "''https://dp1.example''"
      and b = "demo_backup ''1.2.2'' 15" and vm = "[''1.2.2'' \<mapsto> [''https://dp1.example'']]"
      and vs = "[''1.2.2'']"]
  by (simp add: demo_env_def demo_selector_def demo_response_def demo_urlMap_def demo_parse_def
      semver_valid_def hasSameMajorAndMinorVersion_def patchLower_def slotDiffTrips_def
      slotDiffPlays_def demo_at_threshold_def demo_backup_def)

end
